theory Spec2Isabelle
  imports Complex_Main
begin

section \<open>Constructive mapper from the fractional optimum: data model\<close>

text \<open>
  Embedding of \<^verbatim>\<open>placement/constructive_mapper_from_fractional.py\<close>.

  Numbers are exact rationals; \<^verbatim>\<open>float('inf')\<close> is the extra value \<open>PInf\<close>.

  \<^verbatim>\<open>Item\<close> and \<^verbatim>\<open>Bin\<close> are dict subclasses: their dict content (id, weight or the
  cost fields, the node's attributes) never changes after construction, and Python's
  \<^verbatim>\<open>in\<close>, \<^verbatim>\<open>remove\<close> and \<^verbatim>\<open>==\<close> compare exactly that content. It is the record
  below. The attributes that are mutated (\<^verbatim>\<open>possible_bins\<close>, \<^verbatim>\<open>mapped_to\<close>,
  \<^verbatim>\<open>mapped_here\<close>, \<^verbatim>\<open>preference\<close>) live in a store inside the mapper, keyed by
  the object's id. Node ids of a graph are distinct, so an object is identified by its
  id and \<^verbatim>\<open>is\<close> coincides with equality of the records.
\<close>

datatype ext = Fin rat | PInf

instantiation ext :: linorder
begin

fun less_eq_ext :: "ext \<Rightarrow> ext \<Rightarrow> bool" where
  "less_eq_ext (Fin a) (Fin b) = (a \<le> b)"
| "less_eq_ext (Fin a) PInf = True"
| "less_eq_ext PInf (Fin b) = False"
| "less_eq_ext PInf PInf = True"

fun less_ext :: "ext \<Rightarrow> ext \<Rightarrow> bool" where
  "less_ext (Fin a) (Fin b) = (a < b)"
| "less_ext (Fin a) PInf = True"
| "less_ext PInf (Fin b) = False"
| "less_ext PInf PInf = False"

instance
proof
  fix x y z :: ext
  show "(x < y) = (x \<le> y \<and> \<not> y \<le> x)"
    by (cases x; cases y) auto
  show "x \<le> x"
    by (cases x) auto
  show "x \<le> y \<Longrightarrow> y \<le> z \<Longrightarrow> x \<le> z"
    by (cases x; cases y; cases z) auto
  show "x \<le> y \<Longrightarrow> y \<le> x \<Longrightarrow> x = y"
    by (cases x; cases y) auto
  show "x \<le> y \<or> y \<le> x"
    by (cases x; cases y) auto
qed

end

text \<open>\<^verbatim>\<open>e - r\<close> for a finite \<open>r\<close>: infinity stays infinity.\<close>

fun ext_minus :: "ext \<Rightarrow> rat \<Rightarrow> ext" where
  "ext_minus (Fin a) r = Fin (a - r)"
| "ext_minus PInf r = PInf"

record item =
  item_id :: nat
  weight :: rat
  location_constr :: "nat list option"

record bin =
  bin_id :: nat
  capacity :: rat
  fixed_cost :: rat
  unit_cost :: rat

text \<open>The two input graphs: the checker's verdict and the nodes with their attributes.\<close>

record service_graph =
  ns_check_graph :: bool
  ns_nodes :: "item list"

record infra_graph =
  infra_check_graph :: bool
  infra_nodes :: "bin list"

datatype unfeasible =
    NoBinHostsSmallestItem
  | TotalWeightExceedsCapacities rat rat
  | ItemCannotBeMapped item

datatype error =
    UnfeasibleBinPacking unfeasible
  | NotImplementedError
  | ValueError
  | TypeError
  | AttributeError
  | ItemNotInMappedHere
  | WrongItemMappingStructure
  | ItemNotFoundInAnyBin
  | ConstraintNotRespected

record mapper =
  items :: "item list"
  bins :: "bin list"
  possible_bins :: "nat \<Rightarrow> bin list"
  mapped_to :: "nat \<Rightarrow> bin option"
  mapped_here :: "nat \<Rightarrow> item list"
  preference :: "nat \<Rightarrow> ext option"
  objective_value_of_fractional_opt :: "rat option"
  objective_value_of_integer_solution :: "rat option"
  epsilon :: rat
  min_bin_preference :: "ext option"

text \<open>The state \<^verbatim>\<open>__init__\<close> builds.\<close>

definition init_mapper :: mapper where
  "init_mapper =
     \<lparr>items = [], bins = [], possible_bins = (\<lambda>_. []), mapped_to = (\<lambda>_. None),
      mapped_here = (\<lambda>_. []), preference = (\<lambda>_. None),
      objective_value_of_fractional_opt = None,
      objective_value_of_integer_solution = None,
      epsilon = 1 / 1000, min_bin_preference = None\<rparr>"

section \<open>Bin properties\<close>

definition filled_unit_cost :: "bin \<Rightarrow> ext" where
  "filled_unit_cost b =
     (if capacity b > 0 then Fin (fixed_cost b / capacity b + unit_cost b) else PInf)"

definition total_load :: "mapper \<Rightarrow> bin \<Rightarrow> rat" where
  "total_load m b = sum_list (map weight (mapped_here m (bin_id b)))"

definition is_overloaded :: "mapper \<Rightarrow> bin \<Rightarrow> bool" where
  "is_overloaded m b = (capacity b < total_load m b)"

definition does_item_fit :: "mapper \<Rightarrow> bin \<Rightarrow> item \<Rightarrow> bool" where
  "does_item_fit m b i = (capacity b \<ge> total_load m b + weight i)"

definition get_variable_cost_of_mapping :: "bin \<Rightarrow> item \<Rightarrow> rat" where
  "get_variable_cost_of_mapping b i = weight i * unit_cost b"

definition total_item_weight :: "mapper \<Rightarrow> rat" where
  "total_item_weight m = sum_list (map weight (items m))"

text \<open>Python's \<^verbatim>\<open>sorted\<close> is stable, as insertion sort by key is.\<close>

definition get_bins_sorted_by_filled_unit_cost :: "mapper \<Rightarrow> bin list" where
  "get_bins_sorted_by_filled_unit_cost m = sort_key filled_unit_cost (bins m)"

section \<open>Building the problem and pruning\<close>

text \<open>First loop of \<^verbatim>\<open>get_base_bin_packing_problem\<close>: one fresh Item per service node.\<close>

fun add_items :: "item list \<Rightarrow> mapper \<Rightarrow> mapper" where
  "add_items [] m = m"
| "add_items (n # ns) m =
     add_items ns (m\<lparr>items := items m @ [n],
                    possible_bins := (possible_bins m)(item_id n := []),
                    mapped_to := (mapped_to m)(item_id n := None)\<rparr>)"

text \<open>Second loop: one fresh Bin per infrastructure node, kept when it can host the
  smallest item (the other branch only logs).\<close>

fun add_bins :: "rat \<Rightarrow> bin list \<Rightarrow> mapper \<Rightarrow> mapper" where
  "add_bins w [] m = m"
| "add_bins w (n # ns) m =
     (let m1 = m\<lparr>mapped_here := (mapped_here m)(bin_id n := []),
                 preference := (preference m)(bin_id n := None)\<rparr>
      in if capacity n \<ge> w then add_bins w ns (m1\<lparr>bins := bins m1 @ [n]\<rparr>)
         else add_bins w ns m1)"

text \<open>Last loop: every item gets its own copy of the bin list.\<close>

fun extend_possible_bins :: "item list \<Rightarrow> mapper \<Rightarrow> mapper" where
  "extend_possible_bins [] m = m"
| "extend_possible_bins (i # is) m =
     extend_possible_bins is
       (m\<lparr>possible_bins := (possible_bins m)(item_id i := possible_bins m (item_id i) @ bins m)\<rparr>)"

text \<open>\<^verbatim>\<open>min\<close> of an empty list raises ValueError; of the smallest item only the weight
  is used.\<close>

definition get_base_bin_packing_problem ::
  "infra_graph \<Rightarrow> service_graph \<Rightarrow> mapper \<Rightarrow> error + mapper" where
  "get_base_bin_packing_problem infra ns m =
     (let m1 = add_items (ns_nodes ns) m
      in if items m1 = [] then Inl ValueError
         else let m2 = add_bins (Min (set (map weight (items m1)))) (infra_nodes infra) m1
              in if length (bins m2) = 0
                 then Inl (UnfeasibleBinPacking NoBinHostsSmallestItem)
                 else Inr (extend_possible_bins (items m2) m2))"

text \<open>\<^verbatim>\<open>PruneLocalityConstraints\<close>: the inner loop runs over a copy of the list and removes
  from the list itself.\<close>

fun prune_bins :: "nat list \<Rightarrow> bin list \<Rightarrow> bin list \<Rightarrow> bin list" where
  "prune_bins constr [] pbs = pbs"
| "prune_bins constr (b # bs) pbs =
     (if bin_id b \<notin> set constr then prune_bins constr bs (remove1 b pbs)
      else prune_bins constr bs pbs)"

fun prune_items :: "item list \<Rightarrow> mapper \<Rightarrow> mapper" where
  "prune_items [] m = m"
| "prune_items (i # is) m =
     (case location_constr i of
        Some constr \<Rightarrow>
          prune_items is
            (m\<lparr>possible_bins := (possible_bins m)
                 (item_id i := prune_bins constr (possible_bins m (item_id i))
                                 (possible_bins m (item_id i)))\<rparr>)
      | None \<Rightarrow> prune_items is m)"

definition prune_possible_mappings :: "mapper \<Rightarrow> mapper" where
  "prune_possible_mappings m = prune_items (items m) m"

section \<open>Relaxation\<close>

text \<open>The loop of \<^verbatim>\<open>set_initial_bin_preferences\<close>; the accumulators are
  \<^verbatim>\<open>min_pref\<close> and the fractional objective.\<close>

fun set_prefs_loop ::
  "bin list \<Rightarrow> rat \<Rightarrow> rat \<Rightarrow> bin list \<Rightarrow> ext \<Rightarrow> rat \<Rightarrow> (nat \<Rightarrow> ext option)
     \<Rightarrow> ext \<times> rat \<times> (nat \<Rightarrow> ext option)" where
  "set_prefs_loop obb tiw tbc [] min_pref obj prefs = (min_pref, obj, prefs)"
| "set_prefs_loop obb tiw tbc (b # bs) min_pref obj prefs =
     (let p = (if b = last obb then tiw - (tbc - capacity b) else capacity b)
      in set_prefs_loop obb tiw tbc bs
           (if Fin p < min_pref then Fin p else min_pref)
           (obj + (fixed_cost b + p * unit_cost b))
           (prefs(bin_id b := Some (Fin p))))"

definition set_initial_bin_preferences :: "bin list \<Rightarrow> rat \<Rightarrow> mapper \<Rightarrow> mapper" where
  "set_initial_bin_preferences original_best_bins total_bin_capacity m =
     (case set_prefs_loop original_best_bins (total_item_weight m) total_bin_capacity
             original_best_bins PInf 0 (preference m) of
        (min_pref, obj, prefs) \<Rightarrow>
          m\<lparr>preference := prefs,
            objective_value_of_fractional_opt := Some obj,
            min_bin_preference := Some min_pref\<rparr>)"

text \<open>The loop of \<^verbatim>\<open>get_fist_best_bins\<close> with its accumulators; the \<^verbatim>\<open>else\<close> of the
  \<^verbatim>\<open>for\<close> raises.\<close>

fun first_best_loop ::
  "mapper \<Rightarrow> rat \<Rightarrow> bin list \<Rightarrow> bin list \<Rightarrow> error + (bin list \<times> mapper)" where
  "first_best_loop m total_bin_capacity best_bins [] =
     Inl (UnfeasibleBinPacking
            (TotalWeightExceedsCapacities (total_item_weight m) total_bin_capacity))"
| "first_best_loop m total_bin_capacity best_bins (b # bs) =
     (let tbc = total_bin_capacity + capacity b;
          best = best_bins @ [b]
      in if tbc \<ge> total_item_weight m
         then Inr (best, set_initial_bin_preferences best tbc m)
         else first_best_loop m tbc best bs)"

definition get_fist_best_bins :: "mapper \<Rightarrow> error + (bin list \<times> mapper)" where
  "get_fist_best_bins m =
     first_best_loop m 0 [] (get_bins_sorted_by_filled_unit_cost m)"

section \<open>Rounding\<close>

text \<open>\<^verbatim>\<open>max(..., key=lambda b: b.preference)\<close>: the first maximal element; comparing a
  preference that is still None raises TypeError.\<close>

fun max_by_preference :: "(nat \<Rightarrow> ext option) \<Rightarrow> bin \<Rightarrow> bin list \<Rightarrow> error + bin" where
  "max_by_preference prefs cur [] = Inr cur"
| "max_by_preference prefs cur (b # bs) =
     (case (prefs (bin_id b), prefs (bin_id cur)) of
        (Some pb, Some pc) \<Rightarrow> max_by_preference prefs (if pb > pc then b else cur) bs
      | _ \<Rightarrow> Inl TypeError)"

definition assign :: "item \<Rightarrow> bin \<Rightarrow> mapper \<Rightarrow> mapper" where
  "assign i b m =
     m\<lparr>mapped_to := (mapped_to m)(item_id i := Some b),
       mapped_here := (mapped_here m)(bin_id b := mapped_here m (bin_id b) @ [i])\<rparr>"

text \<open>The body of the loop of \<^verbatim>\<open>map_all_items_to_bins\<close>.\<close>

definition map_item :: "bin list \<Rightarrow> item \<Rightarrow> mapper \<Rightarrow> error + mapper" where
  "map_item best_bins i m =
     (let best_and_possible_bins = filter (\<lambda>b. b \<in> set (possible_bins m (item_id i))) best_bins
      in if length best_and_possible_bins > 0
         then (case max_by_preference (preference m) (hd best_and_possible_bins)
                      (tl best_and_possible_bins) of
                 Inl e \<Rightarrow> Inl e
               | Inr chosen_bin \<Rightarrow> Inr (assign i chosen_bin m))
         else if length (possible_bins m (item_id i)) = 1
         then Inr (assign i (hd (possible_bins m (item_id i))) m)
         else if length (possible_bins m (item_id i)) > 1
         then Inl NotImplementedError
         else Inl (UnfeasibleBinPacking (ItemCannotBeMapped i)))"

fun map_items_loop :: "bin list \<Rightarrow> item list \<Rightarrow> mapper \<Rightarrow> error + mapper" where
  "map_items_loop best_bins [] m = Inr m"
| "map_items_loop best_bins (i # is) m =
     (case map_item best_bins i m of
        Inl e \<Rightarrow> Inl e
      | Inr m' \<Rightarrow> map_items_loop best_bins is m')"

definition map_all_items_to_bins :: "bin list \<Rightarrow> mapper \<Rightarrow> error + mapper" where
  "map_all_items_to_bins best_bins m = map_items_loop best_bins (items m) m"

section \<open>Local search\<close>

definition overloading_items :: "bin list \<Rightarrow> mapper \<Rightarrow> item list" where
  "overloading_items best_bins m =
     concat (map (\<lambda>b. if is_overloaded m b then mapped_here m (bin_id b) else []) best_bins)"

text \<open>The nested loops of \<^verbatim>\<open>improve_item_to_bin_mappings\<close>. The accumulator is None
  while \<^verbatim>\<open>cost_of_cheapest_improvement\<close> is still infinite (every finite cost is below
  it), and otherwise holds the cheapest cost with its target bin and item. Reading
  \<^verbatim>\<open>item.mapped_to.get_variable_cost_of_mapping\<close> of an unmapped item raises
  AttributeError.\<close>

fun scan_bins ::
  "mapper \<Rightarrow> item \<Rightarrow> bin list \<Rightarrow> (rat \<times> bin \<times> item) option
     \<Rightarrow> error + (rat \<times> bin \<times> item) option" where
  "scan_bins m i [] acc = Inr acc"
| "scan_bins m i (b # bs) acc =
     (if does_item_fit m b i \<and> mapped_to m (item_id i) \<noteq> Some b
         \<and> b \<in> set (possible_bins m (item_id i))
      then (case mapped_to m (item_id i) of
              None \<Rightarrow> Inl AttributeError
            | Some cur \<Rightarrow>
                (let cost_of_improvement =
                       get_variable_cost_of_mapping b i - get_variable_cost_of_mapping cur i
                 in scan_bins m i bs
                      (if (case acc of None \<Rightarrow> True
                           | Some (cheapest, _, _) \<Rightarrow> cost_of_improvement < cheapest)
                       then Some (cost_of_improvement, b, i) else acc)))
      else scan_bins m i bs acc)"

fun scan_items ::
  "mapper \<Rightarrow> bin list \<Rightarrow> item list \<Rightarrow> (rat \<times> bin \<times> item) option
     \<Rightarrow> error + (rat \<times> bin \<times> item) option" where
  "scan_items m best_bins [] acc = Inr acc"
| "scan_items m best_bins (i # is) acc =
     (case scan_bins m i best_bins acc of
        Inl e \<Rightarrow> Inl e
      | Inr acc' \<Rightarrow> scan_items m best_bins is acc')"

text \<open>The three updates of a move, in the order of the source.\<close>

definition move_item :: "item \<Rightarrow> bin \<Rightarrow> bin \<Rightarrow> mapper \<Rightarrow> mapper" where
  "move_item i cur target_bin m =
     (let mh1 = (mapped_here m)(bin_id cur := remove1 i (mapped_here m (bin_id cur)));
          mh2 = mh1(bin_id target_bin := mh1 (bin_id target_bin) @ [i])
      in m\<lparr>mapped_to := (mapped_to m)(item_id i := Some target_bin), mapped_here := mh2\<rparr>)"

definition improve_item_to_bin_mappings :: "bin list \<Rightarrow> mapper \<Rightarrow> error + (bool \<times> mapper)" where
  "improve_item_to_bin_mappings best_bins m =
     (if length (overloading_items best_bins m) = 0 then Inr (False, m)
      else (case scan_items m best_bins (overloading_items best_bins m) None of
              Inl e \<Rightarrow> Inl e
            | Inr None \<Rightarrow> Inr (False, m)
            | Inr (Some (c, target_bin, item_to_be_moved)) \<Rightarrow>
                (case mapped_to m (item_id item_to_be_moved) of
                   None \<Rightarrow> Inl AttributeError
                 | Some cur \<Rightarrow>
                     if item_to_be_moved \<notin> set (mapped_here m (bin_id cur))
                     then Inl ItemNotInMappedHere
                     else Inr (True, move_item item_to_be_moved cur target_bin m))))"

section \<open>Validator\<close>

text \<open>First loop of \<^verbatim>\<open>check_bin_mapping\<close>: None when an item is unmapped.\<close>

fun sum_item_costs :: "mapper \<Rightarrow> item list \<Rightarrow> rat \<Rightarrow> rat option" where
  "sum_item_costs m [] obj = Some obj"
| "sum_item_costs m (i # is) obj =
     (case mapped_to m (item_id i) of
        None \<Rightarrow> None
      | Some b \<Rightarrow> sum_item_costs m is (obj + get_variable_cost_of_mapping b i))"

fun remove_mapped :: "item list \<Rightarrow> item list \<Rightarrow> error + item list" where
  "remove_mapped [] all_items = Inr all_items"
| "remove_mapped (i # is) all_items =
     (if i \<in> set all_items then remove_mapped is (remove1 i all_items)
      else Inl WrongItemMappingStructure)"

text \<open>Second loop: None when a bin is overloaded.\<close>

fun check_bins_loop ::
  "mapper \<Rightarrow> bin list \<Rightarrow> item list \<Rightarrow> rat \<Rightarrow> error + (rat \<times> item list) option" where
  "check_bins_loop m [] all_items obj = Inr (Some (obj, all_items))"
| "check_bins_loop m (b # bs) all_items obj =
     (if is_overloaded m b then Inr None
      else if length (mapped_here m (bin_id b)) > 0
      then (case remove_mapped (mapped_here m (bin_id b)) all_items of
              Inl e \<Rightarrow> Inl e
            | Inr all_items' \<Rightarrow> check_bins_loop m bs all_items' (obj + fixed_cost b))
      else check_bins_loop m bs all_items obj)"

definition check_bin_mapping :: "mapper \<Rightarrow> error + (bool \<times> mapper)" where
  "check_bin_mapping m =
     (case sum_item_costs m (items m) 0 of
        None \<Rightarrow> Inr (False, m\<lparr>objective_value_of_integer_solution := None\<rparr>)
      | Some obj \<Rightarrow>
          (case check_bins_loop m (bins m) (items m) obj of
             Inl e \<Rightarrow> Inl e
           | Inr None \<Rightarrow> Inr (False, m\<lparr>objective_value_of_integer_solution := None\<rparr>)
           | Inr (Some (obj', all_items)) \<Rightarrow>
               if length all_items \<noteq> 0 then Inl ItemNotFoundInAnyBin
               else Inr (True, m\<lparr>objective_value_of_integer_solution := Some obj'\<rparr>)))"

text \<open>\<^verbatim>\<open>item.mapped_to['id']\<close> of an unmapped item raises TypeError.\<close>

fun check_other_constraints_loop :: "mapper \<Rightarrow> item list \<Rightarrow> error + bool" where
  "check_other_constraints_loop m [] = Inr True"
| "check_other_constraints_loop m (i # is) =
     (case location_constr i of
        None \<Rightarrow> check_other_constraints_loop m is
      | Some constr \<Rightarrow>
          (case mapped_to m (item_id i) of
             None \<Rightarrow> Inl TypeError
           | Some b \<Rightarrow> if bin_id b \<notin> set constr then Inr False
                      else check_other_constraints_loop m is))"

definition check_other_constraints :: "mapper \<Rightarrow> error + bool" where
  "check_other_constraints m = check_other_constraints_loop m (items m)"

section \<open>Bin admission\<close>

text \<open>\<^verbatim>\<open>self.min_bin_preference - self.epsilon\<close> raises TypeError while the minimum
  preference is still None.\<close>

definition get_new_best_bins :: "bin list \<Rightarrow> mapper \<Rightarrow> error + (bin list \<times> bool \<times> mapper)" where
  "get_new_best_bins best_bins m =
     (case check_bin_mapping m of
        Inl e \<Rightarrow> Inl e
      | Inr (valid, m1) \<Rightarrow>
          if valid then Inr (best_bins, False, m1)
          else (case find (\<lambda>b. b \<notin> set best_bins) (get_bins_sorted_by_filled_unit_cost m1) of
                  None \<Rightarrow> Inr (best_bins, False, m1)
                | Some b \<Rightarrow>
                    (case min_bin_preference m1 of
                       None \<Rightarrow> Inl TypeError
                     | Some mp \<Rightarrow>
                         (let p = ext_minus mp (epsilon m1)
                          in Inr (best_bins @ [b], True,
                                  m1\<lparr>preference := (preference m1)(bin_id b := Some p),
                                     min_bin_preference := Some p\<rparr>)))))"

section \<open>Orchestrator\<close>

text \<open>
  The loops of \<^verbatim>\<open>map\<close> may, as far as their text goes, run forever: they are partial
  functions, and None is a run that never returns. Each carries the list of the stage
  calls that have returned so far, in order, with what they returned.
\<close>

datatype event = Rounded | Improved bool | Admitted bool

partial_function (option) improve_loop ::
  "bin list \<Rightarrow> mapper \<Rightarrow> event list \<Rightarrow> (event list \<times> (error + mapper)) option" where
  "improve_loop best_bins m tr =
     (case improve_item_to_bin_mappings best_bins m of
        Inl e \<Rightarrow> Some (tr, Inl e)
      | Inr (anything_left_to_improve, m') \<Rightarrow>
          if anything_left_to_improve
          then improve_loop best_bins m' (tr @ [Improved True])
          else Some (tr @ [Improved False], Inr m'))"

declare improve_loop.simps [code]

partial_function (option) expansion_loop ::
  "bin list \<Rightarrow> mapper \<Rightarrow> event list \<Rightarrow> (event list \<times> (error + bin list \<times> mapper)) option" where
  "expansion_loop best_bins m tr =
     Option.bind (improve_loop best_bins m tr)
       (\<lambda>(tr1, r). case r of
          Inl e \<Rightarrow> Some (tr1, Inl e)
        | Inr m1 \<Rightarrow>
            (case get_new_best_bins best_bins m1 of
               Inl e \<Rightarrow> Some (tr1, Inl e)
             | Inr (best_bins', can_add_next_bin, m2) \<Rightarrow>
                 if can_add_next_bin
                 then expansion_loop best_bins' m2 (tr1 @ [Admitted True])
                 else Some (tr1 @ [Admitted False], Inr (best_bins', m2))))"

declare expansion_loop.simps [code]

text \<open>The body of the \<^verbatim>\<open>try\<close>; its handler re-raises what it catches.\<close>

definition try_block :: "mapper \<Rightarrow> (event list \<times> (error + bin list \<times> mapper)) option" where
  "try_block m =
     (case get_fist_best_bins m of
        Inl e \<Rightarrow> Some ([], Inl e)
      | Inr (best_bins, m1) \<Rightarrow>
          (case map_all_items_to_bins best_bins m1 of
             Inl e \<Rightarrow> Some ([], Inl e)
           | Inr m2 \<Rightarrow> expansion_loop best_bins m2 [Rounded]))"

text \<open>What follows the \<^verbatim>\<open>try\<close>: the value of \<^verbatim>\<open>mapping['worked']\<close> with the final state.\<close>

definition verify :: "mapper \<Rightarrow> error + (bool \<times> mapper)" where
  "verify m =
     (case check_bin_mapping m of
        Inl e \<Rightarrow> Inl e
      | Inr (valid, m1) \<Rightarrow>
          if \<not> valid then Inr (False, m1)
          else (case check_other_constraints m1 of
                  Inl e \<Rightarrow> Inl e
                | Inr ok \<Rightarrow> if \<not> ok then Inl ConstraintNotRespected else Inr (True, m1)))"

text \<open>\<^verbatim>\<open>map\<close>, on the mapper state \<open>m\<close>.\<close>

definition map_infra_ns ::
  "infra_graph \<Rightarrow> service_graph \<Rightarrow> mapper \<Rightarrow> (event list \<times> (error + bool \<times> mapper)) option" where
  "map_infra_ns infra ns m =
     (if \<not> infra_check_graph infra \<or> \<not> ns_check_graph ns then Some ([], Inr (False, m))
      else (case get_base_bin_packing_problem infra ns m of
              Inl e \<Rightarrow> Some ([], Inl e)
            | Inr m1 \<Rightarrow>
                Option.bind (try_block (prune_possible_mappings m1))
                  (\<lambda>(tr, r). case r of
                     Inl e \<Rightarrow> Some (tr, Inl e)
                   | Inr (best_bins, m2) \<Rightarrow> Some (tr, verify m2))))"

section \<open>Predicates the properties are stated with\<close>

text \<open>The cost difference the improver computes for moving item \<open>i\<close> to bin \<open>b\<close>.\<close>

definition cost_of_improvement :: "mapper \<Rightarrow> item \<Rightarrow> bin \<Rightarrow> rat" where
  "cost_of_improvement m i b =
     (case mapped_to m (item_id i) of
        Some cur \<Rightarrow> get_variable_cost_of_mapping b i - get_variable_cost_of_mapping cur i
      | None \<Rightarrow> 0)"

text \<open>The moves one improvement step may choose from: an item in the membership list of an
  overloaded best bin, and a best bin that fits it, is not its current bin and is among
  its possible bins.\<close>

definition valid_target :: "mapper \<Rightarrow> item \<Rightarrow> bin \<Rightarrow> bool" where
  "valid_target m i b =
     (does_item_fit m b i \<and> mapped_to m (item_id i) \<noteq> Some b
      \<and> b \<in> set (possible_bins m (item_id i)))"




text \<open>The problem structure that building and pruning set up and nothing changes later:
  item ids and bin ids are distinct, and possible bins are bins of the problem.\<close>

definition structure_ok :: "mapper \<Rightarrow> bool" where
  "structure_ok m =
     (distinct (map item_id (items m)) \<and> distinct (map bin_id (bins m))
      \<and> list_all (\<lambda>i. list_all (\<lambda>b. b \<in> set (bins m)) (possible_bins m (item_id i)))
           (items m))"

text \<open>The two-sided bookkeeping: a membership list has no duplicates and holds items of the
  problem; an unmapped item is in no membership list; a mapped item is in the membership
  list of the bin it is mapped to and of no other bin.\<close>

definition bookkeeping :: "mapper \<Rightarrow> bool" where
  "bookkeeping m =
     (list_all (\<lambda>b. distinct (mapped_here m (bin_id b))
                  \<and> list_all (\<lambda>i. i \<in> set (items m)) (mapped_here m (bin_id b)))
        (bins m)
      \<and> list_all (\<lambda>i. case mapped_to m (item_id i) of
                         None \<Rightarrow> list_all (\<lambda>b. i \<notin> set (mapped_here m (bin_id b))) (bins m)
                       | Some c \<Rightarrow>
                           c \<in> set (bins m)
                           \<and> list_all (\<lambda>b. (i \<in> set (mapped_here m (bin_id b))) = (b = c))
                                (bins m))
           (items m))"

text \<open>An assignment, where set, is to one of the item's possible bins.\<close>

definition assignments_possible :: "mapper \<Rightarrow> bool" where
  "assignments_possible m =
     list_all (\<lambda>i. case mapped_to m (item_id i) of
                      None \<Rightarrow> True
                    | Some b \<Rightarrow> b \<in> set (possible_bins m (item_id i)))
       (items m)"

text \<open>The number of calls of the admission controller that have returned.\<close>

definition admissions :: "event list \<Rightarrow> nat" where
  "admissions tr = length (filter (\<lambda>e. case e of Admitted x \<Rightarrow> True | _ \<Rightarrow> False) tr)"

text \<open>Properties of the list of stage calls. The first reads the orchestration as rounding
  being run again after every expansion: an expansion is directly followed by a rounding.\<close>

fun rounding_follows_expansion :: "event list \<Rightarrow> bool" where
  "rounding_follows_expansion (Admitted True # e # tr) =
     (e = Rounded \<and> rounding_follows_expansion (e # tr))"
| "rounding_follows_expansion (e # tr) = rounding_follows_expansion tr"
| "rounding_follows_expansion [] = True"

text \<open>Rounding is the first stage call recorded and is not called again.\<close>

definition rounded_once :: "event list \<Rightarrow> bool" where
  "rounded_once tr = (case tr of [] \<Rightarrow> True | e # es \<Rightarrow> e = Rounded \<and> Rounded \<notin> set es)"

text \<open>What directly follows an expansion is an improvement step; the flag says that the
  event before was an expansion.\<close>

fun improvement_follows :: "bool \<Rightarrow> event list \<Rightarrow> bool" where
  "improvement_follows after_expansion [] = True"
| "improvement_follows after_expansion (e # es) =
     ((if after_expansion then (case e of Improved x \<Rightarrow> True | _ \<Rightarrow> False) else True)
      \<and> improvement_follows (e = Admitted True) es)"

definition improvement_follows_expansion :: "event list \<Rightarrow> bool" where
  "improvement_follows_expansion tr = improvement_follows False tr"

text \<open>The integral objective in the words of the validator's contract: the variable cost of
  every mapped item plus the fixed cost of every bin with at least one member. The lemma
  \<open>check_bin_mapping_objective\<close> below shows that it is the value the validator computes
  whenever it accepts a state.\<close>

definition integral_objective :: "mapper \<Rightarrow> rat" where
  "integral_objective m =
     sum_list (map (\<lambda>i. case mapped_to m (item_id i) of
                           Some b \<Rightarrow> get_variable_cost_of_mapping b i
                         | None \<Rightarrow> 0) (items m))
     + sum_list (map fixed_cost (filter (\<lambda>b. mapped_here m (bin_id b) \<noteq> []) (bins m)))"

section \<open>Example inputs\<close>




text \<open>The state a fresh mapper reaches after building and pruning (the fresh state itself
  when building raises).\<close>

definition built :: "infra_graph \<Rightarrow> service_graph \<Rightarrow> mapper" where
  "built infra ns =
     (case get_base_bin_packing_problem infra ns init_mapper of
        Inr m \<Rightarrow> prune_possible_mappings m
      | Inl e \<Rightarrow> init_mapper)"

text \<open>One bin of capacity 1 and one item of weight 0.\<close>

definition zero_demand_infra :: infra_graph where
  "zero_demand_infra =
     \<lparr>infra_check_graph = True,
      infra_nodes = [\<lparr>bin_id = 1, capacity = 1, fixed_cost = 0, unit_cost = 1\<rparr>]\<rparr>"

definition zero_demand_ns :: service_graph where
  "zero_demand_ns =
     \<lparr>ns_check_graph = True,
      ns_nodes = [\<lparr>item_id = 1, weight = 0, location_constr = None\<rparr>]\<rparr>"

text \<open>A cheap bin of capacity 4, a dear bin of capacity 10, two items of weight 3.\<close>

definition two_bins_infra :: infra_graph where
  "two_bins_infra =
     \<lparr>infra_check_graph = True,
      infra_nodes = [\<lparr>bin_id = 1, capacity = 4, fixed_cost = 0, unit_cost = 1\<rparr>,
                     \<lparr>bin_id = 2, capacity = 10, fixed_cost = 0, unit_cost = 5\<rparr>]\<rparr>"

definition two_items_ns :: service_graph where
  "two_items_ns =
     \<lparr>ns_check_graph = True,
      ns_nodes = [\<lparr>item_id = 1, weight = 3, location_constr = None\<rparr>,
                  \<lparr>item_id = 2, weight = 3, location_constr = None\<rparr>]\<rparr>"

text \<open>The best bins and the state after the relaxation of the built problem, and the state
  after rounding it (the state before, when the stage raises).\<close>

definition relaxed :: "infra_graph \<Rightarrow> service_graph \<Rightarrow> bin list \<times> mapper" where
  "relaxed infra ns =
     (case get_fist_best_bins (built infra ns) of
        Inr p \<Rightarrow> p
      | Inl e \<Rightarrow> ([], built infra ns))"

definition rounded :: "infra_graph \<Rightarrow> service_graph \<Rightarrow> mapper" where
  "rounded infra ns =
     (case map_all_items_to_bins (fst (relaxed infra ns)) (snd (relaxed infra ns)) of
        Inr m \<Rightarrow> m
      | Inl e \<Rightarrow> snd (relaxed infra ns))"

text \<open>Three bins of rising cost and three items: the first two bins have room for the
  total weight, but the repair then needs the third.\<close>

definition three_bins_infra :: infra_graph where
  "three_bins_infra =
     \<lparr>infra_check_graph = True,
      infra_nodes = [\<lparr>bin_id = 1, capacity = 4, fixed_cost = 0, unit_cost = 1\<rparr>,
                     \<lparr>bin_id = 2, capacity = 4, fixed_cost = 0, unit_cost = 2\<rparr>,
                     \<lparr>bin_id = 3, capacity = 10, fixed_cost = 0, unit_cost = 3\<rparr>]\<rparr>"

definition three_items_ns :: service_graph where
  "three_items_ns =
     \<lparr>ns_check_graph = True,
      ns_nodes = [\<lparr>item_id = 1, weight = 3, location_constr = None\<rparr>,
                  \<lparr>item_id = 2, weight = 3, location_constr = None\<rparr>,
                  \<lparr>item_id = 3, weight = 2, location_constr = None\<rparr>]\<rparr>"

text \<open>Two bins of capacity 2, items of weight 3 and 1: the capacities cover the demand, but
  the heavy item fits no bin.\<close>

definition tight_infra :: infra_graph where
  "tight_infra =
     \<lparr>infra_check_graph = True,
      infra_nodes = [\<lparr>bin_id = 1, capacity = 2, fixed_cost = 0, unit_cost = 1\<rparr>,
                     \<lparr>bin_id = 2, capacity = 2, fixed_cost = 0, unit_cost = 2\<rparr>]\<rparr>"

definition tight_ns :: service_graph where
  "tight_ns =
     \<lparr>ns_check_graph = True,
      ns_nodes = [\<lparr>item_id = 1, weight = 3, location_constr = None\<rparr>,
                  \<lparr>item_id = 2, weight = 1, location_constr = None\<rparr>]\<rparr>"

text \<open>One bin of capacity 3 and one item of weight 5.\<close>

definition small_bin_infra :: infra_graph where
  "small_bin_infra =
     \<lparr>infra_check_graph = True,
      infra_nodes = [\<lparr>bin_id = 1, capacity = 3, fixed_cost = 0, unit_cost = 1\<rparr>]\<rparr>"

definition heavy_item_ns :: service_graph where
  "heavy_item_ns =
     \<lparr>ns_check_graph = True,
      ns_nodes = [\<lparr>item_id = 1, weight = 5, location_constr = None\<rparr>]\<rparr>"

section \<open>Properties\<close>


subsection \<open>Rounding\<close>



subsection \<open>Relaxation\<close>









subsection \<open>Local search\<close>










subsection \<open>Frames\<close>

lemma assign_frame [simp]:
  "items (assign i c m) = items m" "bins (assign i c m) = bins m"
  "possible_bins (assign i c m) = possible_bins m" "preference (assign i c m) = preference m"
  "min_bin_preference (assign i c m) = min_bin_preference m" "epsilon (assign i c m) = epsilon m"
  by (simp_all add: assign_def)

lemma move_item_frame [simp]:
  "items (move_item i cur t m) = items m" "bins (move_item i cur t m) = bins m"
  "possible_bins (move_item i cur t m) = possible_bins m"
  "preference (move_item i cur t m) = preference m"
  "min_bin_preference (move_item i cur t m) = min_bin_preference m"
  "epsilon (move_item i cur t m) = epsilon m"
  by (simp_all add: move_item_def Let_def)

lemma max_by_preference_mem:
  "max_by_preference prefs cur bs = Inr c \<Longrightarrow> c \<in> set (cur # bs)"
proof (induction bs arbitrary: cur)
  case Nil
  then show ?case by simp
next
  case (Cons b bs)
  then show ?case
    by (fastforce split: option.splits if_splits)
qed

lemma map_item_Inr:
  assumes "map_item best i m = Inr m'"
  shows "\<exists>c. m' = assign i c m \<and> c \<in> set (possible_bins m (item_id i))"
proof (cases "filter (\<lambda>b. b \<in> set (possible_bins m (item_id i))) best")
  case Nil
  with assms have l: "length (possible_bins m (item_id i)) = 1"
    and m': "m' = assign i (hd (possible_bins m (item_id i))) m"
    by (auto simp: map_item_def split: if_splits)
  from l have "hd (possible_bins m (item_id i)) \<in> set (possible_bins m (item_id i))"
    by (cases "possible_bins m (item_id i)") auto
  with m' show ?thesis by blast
next
  case (Cons h t)
  with assms obtain c where c: "max_by_preference (preference m) h t = Inr c" "m' = assign i c m"
    by (auto simp: map_item_def split: sum.splits)
  from max_by_preference_mem[OF c(1)] have "c \<in> set (filter (\<lambda>b. b \<in> set (possible_bins m (item_id i))) best)"
    using Cons by simp
  with c(2) show ?thesis by auto
qed

lemma scan_bins_Some:
  "scan_bins m i bs acc = Inr (Some (c, t, j)) \<Longrightarrow>
   acc = Some (c, t, j) \<or> (j = i \<and> t \<in> set bs \<and> valid_target m i t)"
proof (induction bs arbitrary: acc)
  case Nil
  then show ?case by simp
next
  case (Cons b bs)
  show ?case
  proof (cases "valid_target m i b")
    case True
    then have v: "does_item_fit m b i \<and> mapped_to m (item_id i) \<noteq> Some b
         \<and> b \<in> set (possible_bins m (item_id i))"
      by (simp add: valid_target_def)
    show ?thesis
    proof (cases "mapped_to m (item_id i)")
      case None
      with Cons.prems v show ?thesis by simp
    next
      case (Some cur)
      let ?c = "get_variable_cost_of_mapping b i - get_variable_cost_of_mapping cur i"
      let ?acc = "if (case acc of None \<Rightarrow> True | Some (cheapest, _, _) \<Rightarrow> ?c < cheapest)
                  then Some (?c, b, i) else acc"
      have "scan_bins m i (b # bs) acc = scan_bins m i bs ?acc"
        using v Some by (simp add: Let_def)
      with Cons.prems have "scan_bins m i bs ?acc = Inr (Some (c, t, j))" by simp
      from Cons.IH[OF this] True show ?thesis
        by (auto split: if_splits)
    qed
  next
    case False
    then have v: "\<not> (does_item_fit m b i \<and> mapped_to m (item_id i) \<noteq> Some b
         \<and> b \<in> set (possible_bins m (item_id i)))"
      by (simp add: valid_target_def)
    have "scan_bins m i (b # bs) acc = scan_bins m i bs acc"
      by (simp only: scan_bins.simps v if_False)
    with Cons.prems have "scan_bins m i bs acc = Inr (Some (c, t, j))" by simp
    from Cons.IH[OF this] show ?thesis by auto
  qed
qed

lemma scan_items_Some:
  "scan_items m best xs acc = Inr (Some (c, t, j)) \<Longrightarrow>
   acc = Some (c, t, j) \<or> (j \<in> set xs \<and> t \<in> set best \<and> valid_target m j t)"
proof (induction xs arbitrary: acc)
  case Nil
  then show ?case by simp
next
  case (Cons i xs)
  from Cons.prems obtain acc' where a: "scan_bins m i best acc = Inr acc'"
    and b: "scan_items m best xs acc' = Inr (Some (c, t, j))"
    by (auto split: sum.splits)
  from Cons.IH[OF b] show ?case
  proof
    assume "acc' = Some (c, t, j)"
    with a scan_bins_Some[of m i best acc c t j] show ?thesis by auto
  next
    assume "j \<in> set xs \<and> t \<in> set best \<and> valid_target m j t"
    then show ?thesis by auto
  qed
qed

lemma improve_Inr:
  assumes "improve_item_to_bin_mappings best m = Inr (moved, m')"
  shows "(\<not> moved \<and> m' = m)
       \<or> (moved \<and> (\<exists>i cur t. m' = move_item i cur t m \<and> mapped_to m (item_id i) = Some cur
               \<and> i \<in> set (mapped_here m (bin_id cur))
               \<and> i \<in> set (overloading_items best m) \<and> t \<in> set best \<and> valid_target m i t))"
proof (cases "overloading_items best m = []")
  case True
  with assms show ?thesis by (simp add: improve_item_to_bin_mappings_def)
next
  case False
  show ?thesis
  proof (cases "scan_items m best (overloading_items best m) None")
    case (Inl e)
    with assms False show ?thesis by (simp add: improve_item_to_bin_mappings_def)
  next
    case (Inr acc)
    show ?thesis
    proof (cases acc)
      case None
      with assms False Inr show ?thesis by (simp add: improve_item_to_bin_mappings_def)
    next
      case (Some p)
      obtain c t i where p: "p = (c, t, i)" by (cases p) auto
      from scan_items_Some[of m best "overloading_items best m" None c t i] Inr Some p
      have mem: "i \<in> set (overloading_items best m)" "t \<in> set best" "valid_target m i t"
        by auto
      from assms False Inr Some p obtain cur where
        "mapped_to m (item_id i) = Some cur" "i \<in> set (mapped_here m (bin_id cur))"
        "moved" "m' = move_item i cur t m"
        by (auto simp: improve_item_to_bin_mappings_def split: option.splits if_splits)
      with mem show ?thesis by blast
    qed
  qed
qed

subsection \<open>Assignments stay within the possible bins\<close>

lemma map_items_loop_assigned:
  "map_items_loop best xs m = Inr m' \<Longrightarrow>
   possible_bins m' = possible_bins m \<and> items m' = items m \<and> bins m' = bins m \<and>
   (\<forall>k. (k \<in> item_id ` set xs \<longrightarrow>
            (\<exists>b. mapped_to m' k = Some b \<and> b \<in> set (possible_bins m k)))
      \<and> (k \<notin> item_id ` set xs \<longrightarrow> mapped_to m' k = mapped_to m k))"
proof (induction xs arbitrary: m)
  case Nil
  then show ?case by simp
next
  case (Cons i xs)
  from Cons.prems obtain m1 where m1: "map_item best i m = Inr m1"
    and rest: "map_items_loop best xs m1 = Inr m'"
    by (auto split: sum.splits)
  from map_item_Inr[OF m1] obtain c where c: "m1 = assign i c m" "c \<in> set (possible_bins m (item_id i))"
    by blast
  have mt: "mapped_to m1 = (mapped_to m)(item_id i := Some c)"
    using c(1) by (simp add: assign_def)
  from Cons.IH[OF rest] c(1) have ih: "possible_bins m' = possible_bins m" "items m' = items m"
    "bins m' = bins m"
    "\<And>k. k \<in> item_id ` set xs \<Longrightarrow> \<exists>b. mapped_to m' k = Some b \<and> b \<in> set (possible_bins m k)"
    "\<And>k. k \<notin> item_id ` set xs \<Longrightarrow> mapped_to m' k = mapped_to m1 k"
    by auto
  show ?case
  proof (intro conjI allI impI)
    fix k assume k: "k \<in> item_id ` set (i # xs)"
    show "\<exists>b. mapped_to m' k = Some b \<and> b \<in> set (possible_bins m k)"
    proof (cases "k \<in> item_id ` set xs")
      case True
      then show ?thesis by (rule ih(4))
    next
      case False
      with k have "k = item_id i" by auto
      with ih(5)[OF False] mt c(2) show ?thesis by simp
    qed
  next
    fix k assume k: "k \<notin> item_id ` set (i # xs)"
    then have "k \<notin> item_id ` set xs" "k \<noteq> item_id i" by auto
    with ih(5) mt show "mapped_to m' k = mapped_to m k" by simp
  qed (rule ih)+
qed

text \<open>
  C10. An assignment, whenever it is set, is to one of the item's possible bins. Rounding
  establishes this for every item of the problem, from any state, and every step of the
  local search preserves it; neither changes the possible bins.
\<close>

theorem assignment_within_possible_bins:
  "(map_all_items_to_bins best_bins m = Inr m1 \<longrightarrow>
      assignments_possible m1 \<and> possible_bins m1 = possible_bins m)
   \<and> (assignments_possible m \<and> improve_item_to_bin_mappings best_bins m = Inr (moved, m2) \<longrightarrow>
      assignments_possible m2 \<and> possible_bins m2 = possible_bins m)"
proof (rule conjI; rule impI)
  assume r: "map_all_items_to_bins best_bins m = Inr m1"
  from map_items_loop_assigned[OF r[unfolded map_all_items_to_bins_def]]
  show "assignments_possible m1 \<and> possible_bins m1 = possible_bins m"
    by (auto simp: assignments_possible_def list_all_iff split: option.splits)
next
  assume a: "assignments_possible m \<and> improve_item_to_bin_mappings best_bins m = Inr (moved, m2)"
  then have ap: "assignments_possible m"
    and imp: "improve_item_to_bin_mappings best_bins m = Inr (moved, m2)"
    by simp_all
  from improve_Inr[OF imp] consider (same) "m2 = m"
    | (moved) i cur t where "m2 = move_item i cur t m" "valid_target m i t"
    by blast
  then show "assignments_possible m2 \<and> possible_bins m2 = possible_bins m"
  proof cases
    case same
    with ap show ?thesis by simp
  next
    case (moved i cur t)
    have mt: "mapped_to m2 = (mapped_to m)(item_id i := Some t)"
      using moved(1) by (simp add: move_item_def Let_def)
    have "t \<in> set (possible_bins m (item_id i))"
      using moved(2) by (simp add: valid_target_def)
    with ap mt moved(1) show ?thesis
      by (auto simp: assignments_possible_def list_all_iff split: option.splits)
  qed
qed

theorem assignment_within_possible_bins_witness:
  "\<not> isl (map_all_items_to_bins (fst (relaxed two_bins_infra two_items_ns))
            (snd (relaxed two_bins_infra two_items_ns)))
   \<and> assignments_possible (rounded two_bins_infra two_items_ns)"
proof -
  have ni: "\<not> isl (map_all_items_to_bins (fst (relaxed two_bins_infra two_items_ns))
                    (snd (relaxed two_bins_infra two_items_ns)))"
    by code_simp
  then obtain m1 where m1: "map_all_items_to_bins (fst (relaxed two_bins_infra two_items_ns))
                              (snd (relaxed two_bins_infra two_items_ns)) = Inr m1"
    by (cases "map_all_items_to_bins (fst (relaxed two_bins_infra two_items_ns))
                 (snd (relaxed two_bins_infra two_items_ns))") auto
  then have r: "rounded two_bins_infra two_items_ns = m1"
    by (simp add: rounded_def)
  from assignment_within_possible_bins [THEN conjunct1, rule_format, OF m1] r ni
  show ?thesis by simp
qed

subsection \<open>Bookkeeping\<close>

lemma structure_ok_item_inj:
  "structure_ok m \<Longrightarrow> i \<in> set (items m) \<Longrightarrow> j \<in> set (items m) \<Longrightarrow>
   item_id i = item_id j \<Longrightarrow> i = j"
  by (auto simp: structure_ok_def distinct_map dest: inj_onD)

lemma structure_ok_bin_inj:
  "structure_ok m \<Longrightarrow> b \<in> set (bins m) \<Longrightarrow> c \<in> set (bins m) \<Longrightarrow>
   bin_id b = bin_id c \<Longrightarrow> b = c"
  by (auto simp: structure_ok_def distinct_map dest: inj_onD)

lemma structure_ok_possible:
  "structure_ok m \<Longrightarrow> i \<in> set (items m) \<Longrightarrow> b \<in> set (possible_bins m (item_id i)) \<Longrightarrow>
   b \<in> set (bins m)"
  by (auto simp: structure_ok_def list_all_iff)



lemma bookkeeping_iff:
  "bookkeeping m \<longleftrightarrow>
     (\<forall>b\<in>set (bins m). distinct (mapped_here m (bin_id b))
          \<and> set (mapped_here m (bin_id b)) \<subseteq> set (items m))
   \<and> (\<forall>i\<in>set (items m).
          (mapped_to m (item_id i) = None \<longrightarrow>
             (\<forall>b\<in>set (bins m). i \<notin> set (mapped_here m (bin_id b))))
        \<and> (\<forall>c. mapped_to m (item_id i) = Some c \<longrightarrow>
             c \<in> set (bins m)
             \<and> (\<forall>b\<in>set (bins m). (i \<in> set (mapped_here m (bin_id b))) = (b = c))))"
  by (auto simp: bookkeeping_def list_all_iff split: option.splits)

lemma bookkeeping_listed:
  assumes "bookkeeping m" "b \<in> set (bins m)" "i \<in> set (mapped_here m (bin_id b))"
  shows "i \<in> set (items m) \<and> mapped_to m (item_id i) = Some b"
proof -
  from assms have i: "i \<in> set (items m)" by (auto simp: bookkeeping_iff)
  show ?thesis
  proof (cases "mapped_to m (item_id i)")
    case None
    with assms i show ?thesis by (auto simp: bookkeeping_iff)
  next
    case (Some c)
    with assms i have "(i \<in> set (mapped_here m (bin_id b))) = (b = c)"
      by (auto simp: bookkeeping_iff)
    with assms Some i show ?thesis by simp
  qed
qed

lemma bookkeeping_assign:
  assumes s: "structure_ok m" and bk: "bookkeeping m"
    and i: "i \<in> set (items m)" and un: "mapped_to m (item_id i) = None"
    and c: "c \<in> set (bins m)"
  shows "bookkeeping (assign i c m)"
proof -
  let ?m = "assign i c m"
  have mt: "mapped_to ?m = (mapped_to m)(item_id i := Some c)"
    and mh: "mapped_here ?m = (mapped_here m)(bin_id c := mapped_here m (bin_id c) @ [i])"
    by (simp_all add: assign_def)
  have nowhere: "\<And>b. b \<in> set (bins m) \<Longrightarrow> i \<notin> set (mapped_here m (bin_id b))"
    using bk i un by (auto simp: bookkeeping_iff)
  have mh_c: "mapped_here ?m (bin_id c) = mapped_here m (bin_id c) @ [i]"
    using mh by simp
  have mh_o: "\<And>b. b \<in> set (bins m) \<Longrightarrow> b \<noteq> c \<Longrightarrow> mapped_here ?m (bin_id b) = mapped_here m (bin_id b)"
    using mh structure_ok_bin_inj[OF s _ c] by auto
  have p1: "distinct (mapped_here ?m (bin_id b)) \<and> set (mapped_here ?m (bin_id b)) \<subseteq> set (items ?m)"
    if b: "b \<in> set (bins ?m)" for b
  proof (cases "b = c")
    case True
    with bk c i nowhere[OF c] mh_c show ?thesis by (auto simp: bookkeeping_iff)
  next
    case False
    with bk b mh_o show ?thesis by (auto simp: bookkeeping_iff)
  qed
  have p2: "(mapped_to ?m (item_id j) = None \<longrightarrow>
             (\<forall>b\<in>set (bins ?m). j \<notin> set (mapped_here ?m (bin_id b))))
        \<and> (\<forall>d. mapped_to ?m (item_id j) = Some d \<longrightarrow>
             d \<in> set (bins ?m)
             \<and> (\<forall>b\<in>set (bins ?m). (j \<in> set (mapped_here ?m (bin_id b))) = (b = d)))"
    if j: "j \<in> set (items ?m)" for j
  proof (cases "item_id j = item_id i")
    case True
    with structure_ok_item_inj[OF s _ i] j have ji: "j = i" by simp
    have "(i \<in> set (mapped_here ?m (bin_id b))) = (b = c)" if "b \<in> set (bins m)" for b
    proof (cases "b = c")
      case True
      with mh_c show ?thesis by simp
    next
      case False
      with mh_o[OF that] nowhere[OF that] show ?thesis by simp
    qed
    with ji mt c show ?thesis by simp
  next
    case False
    then have ne: "j \<noteq> i" by auto
    have same: "(j \<in> set (mapped_here ?m (bin_id b))) = (j \<in> set (mapped_here m (bin_id b)))"
      if "b \<in> set (bins m)" for b
    proof (cases "b = c")
      case True
      with mh_c ne show ?thesis by simp
    next
      case False
      with mh_o[OF that] show ?thesis by simp
    qed
    have "mapped_to ?m (item_id j) = mapped_to m (item_id j)"
      using mt False by simp
    with bk j same show ?thesis by (auto simp: bookkeeping_iff)
  qed
  from p1 p2 show ?thesis unfolding bookkeeping_iff by blast
qed

lemma bookkeeping_move:
  assumes s: "structure_ok m" and bk: "bookkeeping m"
    and i: "i \<in> set (items m)" and cur: "mapped_to m (item_id i) = Some cur"
    and t: "t \<in> set (bins m)" and ne: "t \<noteq> cur"
  shows "bookkeeping (move_item i cur t m)"
proof -
  let ?m = "move_item i cur t m"
  from bk i cur have curb: "cur \<in> set (bins m)"
    and only: "\<And>b. b \<in> set (bins m) \<Longrightarrow> (i \<in> set (mapped_here m (bin_id b))) = (b = cur)"
    by (auto simp: bookkeeping_iff)
  have idne: "bin_id t \<noteq> bin_id cur"
    using structure_ok_bin_inj[OF s t curb] ne by auto
  have mt: "mapped_to ?m = (mapped_to m)(item_id i := Some t)"
    by (simp add: move_item_def Let_def)
  have mh_t: "mapped_here ?m (bin_id t) = mapped_here m (bin_id t) @ [i]"
    using idne by (simp add: move_item_def Let_def)
  have mh_cur: "mapped_here ?m (bin_id cur) = remove1 i (mapped_here m (bin_id cur))"
    using idne by (simp add: move_item_def Let_def)
  have mh_o: "\<And>b. b \<in> set (bins m) \<Longrightarrow> b \<noteq> cur \<Longrightarrow> b \<noteq> t \<Longrightarrow>
                mapped_here ?m (bin_id b) = mapped_here m (bin_id b)"
    using structure_ok_bin_inj[OF s _ curb] structure_ok_bin_inj[OF s _ t]
    by (auto simp: move_item_def Let_def)
  have dist: "\<And>b. b \<in> set (bins m) \<Longrightarrow> distinct (mapped_here m (bin_id b))"
    and sub: "\<And>b. b \<in> set (bins m) \<Longrightarrow> set (mapped_here m (bin_id b)) \<subseteq> set (items m)"
    using bk by (auto simp: bookkeeping_iff)
  have p1: "distinct (mapped_here ?m (bin_id b)) \<and> set (mapped_here ?m (bin_id b)) \<subseteq> set (items ?m)"
    if b: "b \<in> set (bins ?m)" for b
  proof -
    from b have b': "b \<in> set (bins m)" by simp
    consider "b = t" | "b = cur" | "b \<noteq> t" "b \<noteq> cur" by blast
    then show ?thesis
    proof cases
      case 1
      with only[OF t] ne dist[OF t] sub[OF t] i mh_t show ?thesis by auto
    next
      case 2
      with dist[OF curb] sub[OF curb] mh_cur show ?thesis
        by (auto dest: notin_set_remove1)
    next
      case 3
      with mh_o[OF b'] dist[OF b'] sub[OF b'] show ?thesis by simp
    qed
  qed
  have mem: "(j \<in> set (mapped_here ?m (bin_id b)))
               = (if j = i then b = t else j \<in> set (mapped_here m (bin_id b)))"
    if b: "b \<in> set (bins m)" for b j
  proof -
    consider "b = t" | "b = cur" | "b \<noteq> t" "b \<noteq> cur" by blast
    then show ?thesis
    proof cases
      case 1
      with only[OF t] ne mh_t show ?thesis by auto
    next
      case 2
      with dist[OF curb] mh_cur ne show ?thesis by auto
    next
      case 3
      with mh_o[OF b] only[OF b] show ?thesis by auto
    qed
  qed
  have p2: "(mapped_to ?m (item_id j) = None \<longrightarrow>
             (\<forall>b\<in>set (bins ?m). j \<notin> set (mapped_here ?m (bin_id b))))
        \<and> (\<forall>d. mapped_to ?m (item_id j) = Some d \<longrightarrow>
             d \<in> set (bins ?m)
             \<and> (\<forall>b\<in>set (bins ?m). (j \<in> set (mapped_here ?m (bin_id b))) = (b = d)))"
    if j: "j \<in> set (items ?m)" for j
  proof (cases "j = i")
    case True
    with mt t mem show ?thesis by auto
  next
    case False
    with structure_ok_item_inj[OF s _ i] j have "item_id j \<noteq> item_id i" by auto
    then have "mapped_to ?m (item_id j) = mapped_to m (item_id j)"
      using mt by simp
    with bk j mem False show ?thesis by (auto simp: bookkeeping_iff)
  qed
  from p1 p2 show ?thesis unfolding bookkeeping_iff by blast
qed

lemma overloading_items_D:
  "i \<in> set (overloading_items best m) \<Longrightarrow>
   \<exists>b\<in>set best. is_overloaded m b \<and> i \<in> set (mapped_here m (bin_id b))"
  by (auto simp: overloading_items_def split: if_splits)

lemma bookkeeping_improve:
  assumes s: "structure_ok m" and bk: "bookkeeping m" and sub: "set best \<subseteq> set (bins m)"
    and imp: "improve_item_to_bin_mappings best m = Inr (moved, m')"
  shows "bookkeeping m'"
proof -
  from improve_Inr[OF imp] consider (same) "m' = m"
    | (moved) i cur t where "m' = move_item i cur t m" "mapped_to m (item_id i) = Some cur"
        "i \<in> set (overloading_items best m)" "t \<in> set best" "valid_target m i t"
    by blast
  then show ?thesis
  proof cases
    case same
    with bk show ?thesis by simp
  next
    case (moved i cur t)
    from overloading_items_D[OF moved(3)] obtain b where
      b: "b \<in> set best" "i \<in> set (mapped_here m (bin_id b))" by blast
    with sub have "b \<in> set (bins m)" by auto
    from bookkeeping_listed[OF bk this b(2)] have i: "i \<in> set (items m)" by simp
    have t: "t \<in> set (bins m)" using moved(4) sub by auto
    have ne: "t \<noteq> cur" using moved(5) moved(2) by (auto simp: valid_target_def)
    from bookkeeping_move[OF s bk i moved(2) t ne] moved(1) show ?thesis by simp
  qed
qed

text \<open>
  C7. In a problem with distinct item ids, distinct bin ids and possible bins among the
  problem's bins, and with best bins among the problem's bins, the two-sided bookkeeping
  survives every mutation of the assignment: the rounding of an item of the problem that
  is not mapped yet, and every step of the local search. The bookkeeping says that an
  item is mapped to a bin exactly when that bin's membership list holds it, that it is
  then in no other bin's list, and that no list holds an item twice.
\<close>

theorem bookkeeping_maintained:
  assumes "structure_ok m" and "bookkeeping m" and "set best_bins \<subseteq> set (bins m)"
  shows "(i \<in> set (items m) \<and> mapped_to m (item_id i) = None
            \<and> map_item best_bins i m = Inr m1 \<longrightarrow> bookkeeping m1)
       \<and> (improve_item_to_bin_mappings best_bins m = Inr (moved, m2) \<longrightarrow> bookkeeping m2)"
proof (rule conjI; rule impI)
  assume a: "i \<in> set (items m) \<and> mapped_to m (item_id i) = None
            \<and> map_item best_bins i m = Inr m1"
  then have r: "map_item best_bins i m = Inr m1" by simp
  from map_item_Inr[OF r] obtain c where c: "m1 = assign i c m"
    "c \<in> set (possible_bins m (item_id i))" by blast
  from structure_ok_possible[OF assms(1) _ c(2)] a have "c \<in> set (bins m)" by simp
  from bookkeeping_assign[OF assms(1,2) _ _ this] a c(1) show "bookkeeping m1" by simp
next
  assume "improve_item_to_bin_mappings best_bins m = Inr (moved, m2)"
  from bookkeeping_improve[OF assms this] show "bookkeeping m2" .
qed

theorem bookkeeping_maintained_witness:
  "structure_ok (rounded two_bins_infra two_items_ns)
   \<and> bookkeeping (rounded two_bins_infra two_items_ns)
   \<and> set (fst (relaxed two_bins_infra two_items_ns))
        \<subseteq> set (bins (rounded two_bins_infra two_items_ns))
   \<and> (\<exists>moved m2.
          improve_item_to_bin_mappings (fst (relaxed two_bins_infra two_items_ns))
            (rounded two_bins_infra two_items_ns) = Inr (moved, m2)
          \<and> bookkeeping m2)"
proof -
  have s: "structure_ok (rounded two_bins_infra two_items_ns)"
    by code_simp
  have b: "bookkeeping (rounded two_bins_infra two_items_ns)"
    by code_simp
  have sub: "set (fst (relaxed two_bins_infra two_items_ns))
               \<subseteq> set (bins (rounded two_bins_infra two_items_ns))"
    by code_simp
  have "\<not> isl (improve_item_to_bin_mappings (fst (relaxed two_bins_infra two_items_ns))
                  (rounded two_bins_infra two_items_ns))"
    by code_simp
  then obtain moved m2 where
    r: "improve_item_to_bin_mappings (fst (relaxed two_bins_infra two_items_ns))
          (rounded two_bins_infra two_items_ns) = Inr (moved, m2)"
    by (cases "improve_item_to_bin_mappings (fst (relaxed two_bins_infra two_items_ns))
                 (rounded two_bins_infra two_items_ns)") auto
  from bookkeeping_maintained [OF s b sub, THEN conjunct2, rule_format, OF r] s b sub r
  show ?thesis by blast
qed

subsection \<open>What building, pruning and the relaxation set up\<close>

lemma add_items_fields:
  "items (add_items xs m) = items m @ xs"
  "bins (add_items xs m) = bins m"
  "mapped_here (add_items xs m) = mapped_here m"
  "mapped_to (add_items xs m) k = (if k \<in> item_id ` set xs then None else mapped_to m k)"
  "possible_bins (add_items xs m) k = (if k \<in> item_id ` set xs then [] else possible_bins m k)"
  by (induction xs arbitrary: m) auto

lemma add_bins_fields:
  "items (add_bins w ns m) = items m"
  "bins (add_bins w ns m) = bins m @ filter (\<lambda>n. w \<le> capacity n) ns"
  "mapped_to (add_bins w ns m) = mapped_to m"
  "possible_bins (add_bins w ns m) = possible_bins m"
  "mapped_here (add_bins w ns m) k = (if k \<in> bin_id ` set ns then [] else mapped_here m k)"
  by (induction ns arbitrary: m) (auto simp: Let_def)

lemma extend_possible_bins_fields:
  "items (extend_possible_bins xs m) = items m"
  "bins (extend_possible_bins xs m) = bins m"
  "mapped_to (extend_possible_bins xs m) = mapped_to m"
  "mapped_here (extend_possible_bins xs m) = mapped_here m"
  by (induction xs arbitrary: m) auto



lemma prune_items_fields:
  "items (prune_items xs m) = items m"
  "bins (prune_items xs m) = bins m"
  "mapped_to (prune_items xs m) = mapped_to m"
  "mapped_here (prune_items xs m) = mapped_here m"
  by (induction xs arbitrary: m) (auto split: option.splits)



lemma set_initial_bin_preferences_fields [simp]:
  "items (set_initial_bin_preferences bs c m) = items m"
  "bins (set_initial_bin_preferences bs c m) = bins m"
  "mapped_to (set_initial_bin_preferences bs c m) = mapped_to m"
  "mapped_here (set_initial_bin_preferences bs c m) = mapped_here m"
  "possible_bins (set_initial_bin_preferences bs c m) = possible_bins m"
  by (simp_all add: set_initial_bin_preferences_def split: prod.splits)


subsection \<open>Rounding keeps the bookkeeping\<close>


subsection \<open>Termination\<close>






lemma admissions_simps [simp]:
  "admissions [] = 0"
  "admissions (tr @ [Improved x]) = admissions tr"
  "admissions (tr @ [Admitted x]) = Suc (admissions tr)"
  "admissions [Rounded] = 0"
  by (simp_all add: admissions_def)


lemma check_bin_mapping_Inr:
  "check_bin_mapping m = Inr (valid, m1) \<Longrightarrow>
   items m1 = items m \<and> bins m1 = bins m \<and> possible_bins m1 = possible_bins m
   \<and> mapped_to m1 = mapped_to m \<and> mapped_here m1 = mapped_here m"
  by (auto simp: check_bin_mapping_def split: option.splits sum.splits if_splits)






subsection \<open>The order of the stage calls\<close>

lemma improvement_follows_append:
  "improvement_follows f (xs @ ys)
     = (improvement_follows f xs
        \<and> improvement_follows (if xs = [] then f else last xs = Admitted True) ys)"
  by (induction xs arbitrary: f) auto

lemma improvement_follows_weaken:
  "improvement_follows True es \<Longrightarrow> improvement_follows f es"
  by (cases es) auto

lemma improve_loop_trace:
  assumes "improve_loop best m tr = Some (tr', r)"
  shows "\<exists>es. tr' = tr @ es \<and> Rounded \<notin> set es \<and> improvement_follows True es
            \<and> (es \<noteq> [] \<longrightarrow> last es \<noteq> Admitted True)
            \<and> (\<forall>m'. r = Inr m' \<longrightarrow> es \<noteq> [])"
proof -
  have "\<exists>es. fst y = tr @ es \<and> Rounded \<notin> set es \<and> improvement_follows True es
            \<and> (es \<noteq> [] \<longrightarrow> last es \<noteq> Admitted True)
            \<and> (\<forall>m'. snd y = Inr m' \<longrightarrow> es \<noteq> [])"
    if "improve_loop best m tr = Some y" for y
    using that
  proof (induction best m tr y rule: improve_loop.raw_induct [rotated 1, consumes 1])
    case (1 loop best m tr y)
    show ?case
    proof (cases "improve_item_to_bin_mappings best m")
      case (Inl e)
      with 1(2) have "y = (tr, Inl e)" by simp
      then show ?thesis by simp
    next
      case (Inr p)
      obtain left m1 where p: "p = (left, m1)" by (cases p) auto
      show ?thesis
      proof (cases left)
        case True
        with 1(2) Inr p have "loop best m1 (tr @ [Improved True]) = Some y" by simp
        from 1(1)[OF this] obtain es where es: "fst y = (tr @ [Improved True]) @ es"
          "Rounded \<notin> set es" "improvement_follows True es"
          "es \<noteq> [] \<longrightarrow> last es \<noteq> Admitted True" by blast
        have "improvement_follows True (Improved True # es)"
          using es(3) by (simp add: improvement_follows_weaken)
        with es show ?thesis
          by (intro exI[of _ "Improved True # es"]) auto
      next
        case False
        with 1(2) Inr p have "y = (tr @ [Improved False], Inr m1)" by simp
        then show ?thesis by (intro exI[of _ "[Improved False]"]) simp
      qed
    qed
  qed
  from this[OF assms] show ?thesis by simp
qed

lemma expansion_loop_trace:
  assumes "expansion_loop best m tr = Some (tr', r)"
  shows "\<exists>es. tr' = tr @ es \<and> Rounded \<notin> set es \<and> improvement_follows True es"
proof -
  have "\<exists>es. fst y = tr @ es \<and> Rounded \<notin> set es \<and> improvement_follows True es"
    if "expansion_loop best m tr = Some y" for y
    using that
  proof (induction best m tr y rule: expansion_loop.raw_induct [rotated 1, consumes 1])
    case (1 loop best m tr y)
    from 1(2) obtain tr1 r1 where il: "improve_loop best m tr = Some (tr1, r1)"
      and rest: "(case r1 of Inl e \<Rightarrow> Some (tr1, Inl e)
               | Inr m1 \<Rightarrow>
                   (case get_new_best_bins best m1 of
                      Inl e \<Rightarrow> Some (tr1, Inl e)
                    | Inr (best', can, m2) \<Rightarrow>
                        if can then loop best' m2 (tr1 @ [Admitted True])
                        else Some (tr1 @ [Admitted False], Inr (best', m2)))) = Some y"
      by (auto simp: bind_eq_Some_conv)
    from improve_loop_trace[OF il] obtain es1 where es1: "tr1 = tr @ es1" "Rounded \<notin> set es1"
      "improvement_follows True es1" "es1 \<noteq> [] \<longrightarrow> last es1 \<noteq> Admitted True"
      "\<forall>m'. r1 = Inr m' \<longrightarrow> es1 \<noteq> []"
      by blast
    show ?case
    proof (cases r1)
      case (Inl e)
      with rest have "y = (tr1, Inl e)" by simp
      with es1 show ?thesis by auto
    next
      case (Inr m1)
      with es1 have ne: "es1 \<noteq> []" and la: "last es1 \<noteq> Admitted True" by auto
      show ?thesis
      proof (cases "get_new_best_bins best m1")
        case (Inl e)
        with rest Inr have "y = (tr1, Inl e)" by simp
        with es1 show ?thesis by auto
      next
        case g: (Inr q)
        obtain best' can m2 where q: "q = (best', can, m2)" by (cases q) auto
        show ?thesis
        proof (cases can)
          case True
          with rest Inr g q have "loop best' m2 (tr1 @ [Admitted True]) = Some y"
            by simp
          from 1(1)[OF this] obtain es2 where es2: "fst y = (tr1 @ [Admitted True]) @ es2"
            "Rounded \<notin> set es2" "improvement_follows True es2" by blast
          have "improvement_follows True (es1 @ Admitted True # es2)"
            using es1(3) es2(3) ne la by (simp add: improvement_follows_append)
          with es1 es2 show ?thesis
            by (intro exI[of _ "es1 @ Admitted True # es2"]) auto
        next
          case False
          with rest Inr g q have y: "y = (tr1 @ [Admitted False], Inr (best', m2))" by simp
          have "improvement_follows True (es1 @ [Admitted False])"
            using es1(3) ne la by (simp add: improvement_follows_append)
          with es1 y show ?thesis
            by (intro exI[of _ "es1 @ [Admitted False]"]) auto
        qed
      qed
    qed
  qed
  from this[OF assms] show ?thesis by simp
qed

lemma try_block_trace:
  assumes "try_block m = Some (tr, r)"
  shows "rounded_once tr \<and> improvement_follows_expansion tr"
proof (cases "get_fist_best_bins m")
  case (Inl e)
  with assms show ?thesis
    by (simp add: try_block_def rounded_once_def improvement_follows_expansion_def)
next
  case (Inr p)
  obtain best m1 where p: "p = (best, m1)" by (cases p) auto
  show ?thesis
  proof (cases "map_all_items_to_bins best m1")
    case (Inl e)
    with assms Inr p show ?thesis
      by (simp add: try_block_def rounded_once_def improvement_follows_expansion_def)
  next
    case r: (Inr m2)
    with assms Inr p have "expansion_loop best m2 [Rounded] = Some (tr, r)"
      by (simp add: try_block_def)
    from expansion_loop_trace[OF this] obtain es where "tr = [Rounded] @ es"
      "Rounded \<notin> set es" "improvement_follows True es" by blast
    then show ?thesis
      by (simp add: rounded_once_def improvement_follows_expansion_def improvement_follows_weaken)
  qed
qed

text \<open>
  C1 (amended). In every run of map that returns or raises, rounding is the first stage
  call recorded and is never called again, and what directly follows an expansion by the
  admission controller is a step of the improvement loop: after an expansion only the
  improvement loop runs again with the enlarged best-bin set.
\<close>

theorem rounding_runs_once:
  assumes "map_infra_ns infra ns m = Some (tr, r)"
  shows "rounded_once tr \<and> improvement_follows_expansion tr"
proof (cases "\<not> infra_check_graph infra \<or> \<not> ns_check_graph ns")
  case True
  with assms show ?thesis
    by (auto simp: map_infra_ns_def rounded_once_def improvement_follows_expansion_def)
next
  case ok: False
  show ?thesis
  proof (cases "get_base_bin_packing_problem infra ns m")
    case (Inl e)
    with assms ok show ?thesis
      by (auto simp: map_infra_ns_def rounded_once_def improvement_follows_expansion_def)
  next
    case (Inr m1)
    with assms ok obtain tr1 r1 where t: "try_block (prune_possible_mappings m1) = Some (tr1, r1)"
      and rest: "(case r1 of Inl e \<Rightarrow> Some (tr1, Inl e)
                  | Inr (best_bins, m2) \<Rightarrow> Some (tr1, verify m2)) = Some (tr, r)"
      by (auto simp: map_infra_ns_def bind_eq_Some_conv)
    from rest have "tr1 = tr" by (cases r1) auto
    with t show ?thesis using try_block_trace by blast
  qed
qed

theorem rounding_runs_once_witness:
  "map_option fst (map_infra_ns three_bins_infra three_items_ns init_mapper)
     = Some [Rounded, Improved True, Improved False, Admitted True,
             Improved True, Improved False, Admitted False]
   \<and> rounded_once [Rounded, Improved True, Improved False, Admitted True,
                    Improved True, Improved False, Admitted False]
   \<and> improvement_follows_expansion [Rounded, Improved True, Improved False, Admitted True,
                    Improved True, Improved False, Admitted False]"
proof -
  have t: "map_option fst (map_infra_ns three_bins_infra three_items_ns init_mapper)
     = Some [Rounded, Improved True, Improved False, Admitted True,
             Improved True, Improved False, Admitted False]"
    by code_simp
  then obtain r where "map_infra_ns three_bins_infra three_items_ns init_mapper
     = Some ([Rounded, Improved True, Improved False, Admitted True,
             Improved True, Improved False, Admitted False], r)"
    by auto
  from rounding_runs_once [OF this] t show ?thesis by simp
qed

text \<open>Three bins, three items: the admission controller expands the best-bin set once, and
  the next stage call is an improvement step, not a rounding.\<close>

theorem rounding_not_rerun_counterexample:
  "map_option (\<lambda>(tr, r). (tr, rounding_follows_expansion tr))
     (map_infra_ns three_bins_infra three_items_ns init_mapper)
   = Some ([Rounded, Improved True, Improved False, Admitted True,
            Improved True, Improved False, Admitted False], False)"
  by code_simp

subsection \<open>The ways out of map\<close>

lemma sum_item_costs_cong:
  "mapped_to m' = mapped_to m \<Longrightarrow> sum_item_costs m' xs obj = sum_item_costs m xs obj"
  by (induction xs arbitrary: obj) (auto split: option.splits)

lemma check_bins_loop_cong:
  "mapped_here m' = mapped_here m \<Longrightarrow>
   check_bins_loop m' bs all_items obj = check_bins_loop m bs all_items obj"
  by (induction bs arbitrary: all_items obj)
     (auto simp: is_overloaded_def total_load_def split: sum.splits)

lemma check_bin_mapping_cong:
  assumes "items m' = items m" "bins m' = bins m" "mapped_to m' = mapped_to m"
    "mapped_here m' = mapped_here m" "check_bin_mapping m = Inr (valid, a)"
  shows "\<exists>b. check_bin_mapping m' = Inr (valid, b)"
  using assms(5)
  unfolding check_bin_mapping_def assms(1,2) sum_item_costs_cong[OF assms(3)]
    check_bins_loop_cong[OF assms(4)]
  by (auto split: option.splits sum.splits if_splits)

lemma get_new_best_bins_exit:
  assumes "get_new_best_bins best m = Inr (best', False, m2)"
  shows "(\<exists>m3. check_bin_mapping m2 = Inr (True, m3)) \<or> set (bins m2) \<subseteq> set best'"
proof -
  from assms obtain valid m1 where c: "check_bin_mapping m = Inr (valid, m1)"
    by (auto simp: get_new_best_bins_def split: sum.splits)
  note f = check_bin_mapping_Inr[OF c]
  show ?thesis
  proof (cases valid)
    case True
    with assms c have "m2 = m1" by (simp add: get_new_best_bins_def)
    with check_bin_mapping_cong[of m2 m valid m1] f c True show ?thesis by auto
  next
    case False
    with assms c have n: "find (\<lambda>b. b \<notin> set best) (get_bins_sorted_by_filled_unit_cost m1) = None"
      and e: "m2 = m1" "best' = best"
      by (auto simp: get_new_best_bins_def Let_def split: option.splits)
    from n have "set (bins m1) \<subseteq> set best"
      by (auto simp: find_None_iff get_bins_sorted_by_filled_unit_cost_def)
    with e show ?thesis by simp
  qed
qed

lemma expansion_loop_exit:
  assumes "expansion_loop best m tr = Some (tr', Inr (best', m'))"
  shows "(\<exists>m3. check_bin_mapping m' = Inr (True, m3)) \<or> set (bins m') \<subseteq> set best'"
proof -
  have "\<forall>b' m'. snd y = Inr (b', m') \<longrightarrow>
          (\<exists>m3. check_bin_mapping m' = Inr (True, m3)) \<or> set (bins m') \<subseteq> set b'"
    if "expansion_loop best m tr = Some y" for y
    using that
  proof (induction best m tr y rule: expansion_loop.raw_induct [rotated 1, consumes 1])
    case (1 loop best m tr y)
    from 1(2) obtain tr1 r1 where il: "improve_loop best m tr = Some (tr1, r1)"
      and rest: "(case r1 of Inl e \<Rightarrow> Some (tr1, Inl e)
               | Inr m1 \<Rightarrow>
                   (case get_new_best_bins best m1 of
                      Inl e \<Rightarrow> Some (tr1, Inl e)
                    | Inr (best', can, m2) \<Rightarrow>
                        if can then loop best' m2 (tr1 @ [Admitted True])
                        else Some (tr1 @ [Admitted False], Inr (best', m2)))) = Some y"
      by (auto simp: bind_eq_Some_conv)
    show ?case
    proof (cases r1)
      case (Inl e)
      with rest show ?thesis by auto
    next
      case (Inr m1)
      show ?thesis
      proof (cases "get_new_best_bins best m1")
        case (Inl e)
        with rest Inr show ?thesis by auto
      next
        case g: (Inr q)
        obtain best' can m2 where q: "q = (best', can, m2)" by (cases q) auto
        show ?thesis
        proof (cases can)
          case True
          with rest Inr g q have "loop best' m2 (tr1 @ [Admitted True]) = Some y" by simp
          from 1(1)[OF this] show ?thesis .
        next
          case False
          with rest Inr g q have y: "y = (tr1 @ [Admitted False], Inr (best', m2))" by simp
          from g q False have "get_new_best_bins best m1 = Inr (best', False, m2)" by simp
          from get_new_best_bins_exit[OF this] y show ?thesis by simp
        qed
      qed
    qed
  qed
  from this[OF assms] show ?thesis by simp
qed

lemma try_block_exit:
  assumes "try_block m = Some (tr, Inr (best, m'))"
  shows "(\<exists>m3. check_bin_mapping m' = Inr (True, m3)) \<or> set (bins m') \<subseteq> set best"
proof -
  from assms obtain b0 m0 where "expansion_loop b0 m0 [Rounded] = Some (tr, Inr (best, m'))"
    by (auto simp: try_block_def split: sum.splits)
  then show ?thesis by (rule expansion_loop_exit)
qed

lemma verify_not_worked:
  "verify m = Inr (False, m') \<longleftrightarrow> check_bin_mapping m = Inr (False, m')"
  by (auto simp: verify_def split: sum.splits if_splits)

text \<open>
  C8. map returns a result with worked = false, without raising, in exactly two
  situations: a checker predicate is false, and then nothing has been done (no stage call,
  the state untouched); or the checkers pass, the body of the try returns with every bin
  of the problem in the best-bin set, and the final check of the mapping reports it
  invalid.
\<close>

theorem not_worked_two_ways:
  "map_infra_ns infra ns m = Some (tr, Inr (False, m')) \<longleftrightarrow>
     ((\<not> infra_check_graph infra \<or> \<not> ns_check_graph ns) \<and> tr = [] \<and> m' = m)
   \<or> (infra_check_graph infra \<and> ns_check_graph ns
      \<and> (\<exists>m1 best_bins m2.
            get_base_bin_packing_problem infra ns m = Inr m1
            \<and> try_block (prune_possible_mappings m1) = Some (tr, Inr (best_bins, m2))
            \<and> set (bins m2) \<subseteq> set best_bins
            \<and> check_bin_mapping m2 = Inr (False, m')))"
proof (cases "\<not> infra_check_graph infra \<or> \<not> ns_check_graph ns")
  case True
  then show ?thesis by (auto simp: map_infra_ns_def)
next
  case ok: False
  show ?thesis
  proof (cases "get_base_bin_packing_problem infra ns m")
    case (Inl e)
    with ok show ?thesis by (simp add: map_infra_ns_def)
  next
    case (Inr m1)
    show ?thesis
    proof (cases "try_block (prune_possible_mappings m1)")
      case None
      with ok Inr show ?thesis by (simp add: map_infra_ns_def)
    next
      case (Some p)
      obtain tr1 r1 where p: "p = (tr1, r1)" by (cases p) auto
      show ?thesis
      proof (cases r1)
        case (Inl e)
        with ok Inr Some p show ?thesis by (auto simp: map_infra_ns_def)
      next
        case r: (Inr q)
        obtain bb m2 where q: "q = (bb, m2)" by (cases q) auto
        have t: "try_block (prune_possible_mappings m1) = Some (tr1, Inr (bb, m2))"
          using Some p r q by simp
        have m: "map_infra_ns infra ns m = Some (tr1, verify m2)"
          using ok Inr t by (simp add: map_infra_ns_def)
        from try_block_exit[OF t]
        have ex: "check_bin_mapping m2 = Inr (False, m') \<Longrightarrow> set (bins m2) \<subseteq> set bb"
          by auto
        show ?thesis
          using ok Inr t m ex by (auto simp: verify_not_worked)
      qed
    qed
  qed
qed

theorem not_worked_two_ways_witness:
  "map_option (\<lambda>(tr, r). (tr, map_sum id fst r)) (map_infra_ns tight_infra tight_ns init_mapper)
     = Some ([Rounded, Improved True, Improved False, Admitted False], Inr False)
   \<and> (\<exists>m1 best_bins m2 m'.
         get_base_bin_packing_problem tight_infra tight_ns init_mapper = Inr m1
         \<and> try_block (prune_possible_mappings m1)
             = Some ([Rounded, Improved True, Improved False, Admitted False],
                     Inr (best_bins, m2))
         \<and> set (bins m2) \<subseteq> set best_bins
         \<and> check_bin_mapping m2 = Inr (False, m'))"
proof -
  have t: "map_option (\<lambda>(tr, r). (tr, map_sum id fst r))
             (map_infra_ns tight_infra tight_ns init_mapper)
     = Some ([Rounded, Improved True, Improved False, Admitted False], Inr False)"
    by code_simp
  then obtain r where r: "map_infra_ns tight_infra tight_ns init_mapper
     = Some ([Rounded, Improved True, Improved False, Admitted False], r)"
    and f: "map_sum id fst r = Inr False"
    by auto
  from f obtain m' where "r = Inr (False, m')"
    by (cases r) auto
  with r have "map_infra_ns tight_infra tight_ns init_mapper
     = Some ([Rounded, Improved True, Improved False, Admitted False], Inr (False, m'))"
    by simp
  from not_worked_two_ways [THEN iffD1, OF this]
  have "\<exists>m1 best_bins m2.
         get_base_bin_packing_problem tight_infra tight_ns init_mapper = Inr m1
         \<and> try_block (prune_possible_mappings m1)
             = Some ([Rounded, Improved True, Improved False, Admitted False],
                     Inr (best_bins, m2))
         \<and> set (bins m2) \<subseteq> set best_bins
         \<and> check_bin_mapping m2 = Inr (False, m')"
    by auto
  with t show ?thesis by blast
qed

subsection \<open>Infeasibility is raised to the caller\<close>

lemma built_fields:
  assumes "get_base_bin_packing_problem infra ns init_mapper = Inr m1"
  shows "items m1 = ns_nodes ns"
    and "bins m1 = filter (\<lambda>n. Min (set (map weight (ns_nodes ns))) \<le> capacity n) (infra_nodes infra)"
    and "ns_nodes ns \<noteq> []"
proof -
  let ?a = "add_items (ns_nodes ns) init_mapper"
  let ?b = "add_bins (Min (set (map weight (items ?a)))) (infra_nodes infra) ?a"
  have ia: "items ?a = ns_nodes ns"
    by (simp add: add_items_fields init_mapper_def)
  from assms have m1: "m1 = extend_possible_bins (items ?b) ?b" and ne: "items ?a \<noteq> []"
    by (auto simp: get_base_bin_packing_problem_def Let_def split: if_splits)
  show "items m1 = ns_nodes ns"
    by (simp add: m1 extend_possible_bins_fields add_bins_fields ia)
  show "bins m1 = filter (\<lambda>n. Min (set (map weight (ns_nodes ns))) \<le> capacity n) (infra_nodes infra)"
    by (simp add: m1 extend_possible_bins_fields add_bins_fields add_items_fields ia)
       (simp add: init_mapper_def)
  show "ns_nodes ns \<noteq> []" using ne ia by simp
qed

lemma get_base_no_bin:
  assumes "ns_nodes ns \<noteq> []"
    and "\<forall>n\<in>set (infra_nodes infra). capacity n < Min (set (map weight (ns_nodes ns)))"
  shows "get_base_bin_packing_problem infra ns init_mapper
           = Inl (UnfeasibleBinPacking NoBinHostsSmallestItem)"
proof -
  let ?a = "add_items (ns_nodes ns) init_mapper"
  have ia: "items ?a = ns_nodes ns"
    by (simp add: add_items_fields init_mapper_def)
  have "filter (\<lambda>n. Min (set (map weight (ns_nodes ns))) \<le> capacity n) (infra_nodes infra) = []"
    using assms(2) by (auto simp: filter_empty_conv)
  then have "bins (add_bins (Min (set (map weight (items ?a)))) (infra_nodes infra) ?a) = []"
    by (simp add: add_bins_fields add_items_fields ia) (simp add: init_mapper_def)
  with assms(1) ia show ?thesis
    by (simp add: get_base_bin_packing_problem_def Let_def)
qed

lemma first_best_loop_Inl:
  assumes "\<forall>b\<in>set bs. 0 \<le> capacity b"
    and "tot + sum_list (map capacity bs) < total_item_weight m"
  shows "first_best_loop m tot best bs
           = Inl (UnfeasibleBinPacking
                    (TotalWeightExceedsCapacities (total_item_weight m)
                       (tot + sum_list (map capacity bs))))"
  using assms
proof (induction bs arbitrary: tot best)
  case Nil
  then show ?case by simp
next
  case (Cons b bs)
  have "0 \<le> sum_list (map capacity bs)"
    using Cons.prems(1) by (intro sum_list_nonneg) auto
  with Cons.prems(2) have "\<not> total_item_weight m \<le> tot + capacity b" by simp
  moreover have "(tot + capacity b) + sum_list (map capacity bs) < total_item_weight m"
    using Cons.prems(2) by (simp add: add.assoc)
  ultimately show ?case
    using Cons.IH[of "tot + capacity b" "best @ [b]"] Cons.prems(1)
    by (simp add: Let_def add.assoc)
qed

lemma sum_list_insort_key:
  fixes f :: "'a \<Rightarrow> rat"
  shows "sum_list (map f (insort_key k x xs)) = f x + sum_list (map f xs)"
  by (induction xs) auto

lemma sum_list_sort_key:
  fixes f :: "'a \<Rightarrow> rat"
  shows "sum_list (map f (sort_key k xs)) = sum_list (map f xs)"
  by (induction xs) (auto simp: sum_list_insort_key)

lemma get_fist_best_bins_short:
  assumes "\<forall>b\<in>set (bins m). 0 \<le> capacity b"
    and "sum_list (map capacity (bins m)) < total_item_weight m"
  shows "get_fist_best_bins m
           = Inl (UnfeasibleBinPacking
                    (TotalWeightExceedsCapacities (total_item_weight m)
                       (sum_list (map capacity (bins m)))))"
proof -
  let ?s = "get_bins_sorted_by_filled_unit_cost m"
  have "\<forall>b\<in>set ?s. 0 \<le> capacity b"
    using assms(1) by (simp add: get_bins_sorted_by_filled_unit_cost_def)
  moreover have s: "sum_list (map capacity ?s) = sum_list (map capacity (bins m))"
    by (simp add: get_bins_sorted_by_filled_unit_cost_def sum_list_sort_key)
  ultimately show ?thesis
    using first_best_loop_Inl[of ?s 0 m "[]"] assms(2)
    by (simp add: get_fist_best_bins_def)
qed

lemma prune_possible_mappings_fields [simp]:
  "items (prune_possible_mappings m) = items m"
  "bins (prune_possible_mappings m) = bins m"
  "total_item_weight (prune_possible_mappings m) = total_item_weight m"
  by (simp_all add: prune_possible_mappings_def prune_items_fields total_item_weight_def)

text \<open>
  C6. For a fresh mapper and graphs that pass the checkers, map ends by raising
  UnfeasibleBinPacking, never with a result, in three cases: no bin can host the smallest
  item (raised while the problem is built); the capacities of all the bins kept sum up to
  less than the total item weight, the weights being non-negative (raised by the
  relaxation); and whenever rounding raises it.
\<close>

theorem unfeasible_is_raised:
  assumes "infra_check_graph infra" and "ns_check_graph ns"
  shows "(ns_nodes ns \<noteq> []
          \<and> (\<forall>n\<in>set (infra_nodes infra). capacity n < Min (set (map weight (ns_nodes ns))))
          \<longrightarrow> map_infra_ns infra ns init_mapper
                = Some ([], Inl (UnfeasibleBinPacking NoBinHostsSmallestItem)))
       \<and> (get_base_bin_packing_problem infra ns init_mapper = Inr m1
          \<and> (\<forall>i\<in>set (ns_nodes ns). 0 \<le> weight i)
          \<and> sum_list (map capacity (bins m1)) < total_item_weight m1
          \<longrightarrow> map_infra_ns infra ns init_mapper
                = Some ([], Inl (UnfeasibleBinPacking
                                   (TotalWeightExceedsCapacities (total_item_weight m1)
                                      (sum_list (map capacity (bins m1)))))))
       \<and> (get_base_bin_packing_problem infra ns init_mapper = Inr m1
          \<and> get_fist_best_bins (prune_possible_mappings m1) = Inr (best_bins, m2)
          \<and> map_all_items_to_bins best_bins m2 = Inl (UnfeasibleBinPacking u)
          \<longrightarrow> map_infra_ns infra ns init_mapper = Some ([], Inl (UnfeasibleBinPacking u)))"
proof (intro conjI impI)
  assume "ns_nodes ns \<noteq> []
          \<and> (\<forall>n\<in>set (infra_nodes infra). capacity n < Min (set (map weight (ns_nodes ns))))"
  then have "get_base_bin_packing_problem infra ns init_mapper
           = Inl (UnfeasibleBinPacking NoBinHostsSmallestItem)"
    using get_base_no_bin by blast
  with assms show "map_infra_ns infra ns init_mapper
                = Some ([], Inl (UnfeasibleBinPacking NoBinHostsSmallestItem))"
    by (simp add: map_infra_ns_def)
next
  assume a: "get_base_bin_packing_problem infra ns init_mapper = Inr m1
          \<and> (\<forall>i\<in>set (ns_nodes ns). 0 \<le> weight i)
          \<and> sum_list (map capacity (bins m1)) < total_item_weight m1"
  then have g: "get_base_bin_packing_problem infra ns init_mapper = Inr m1" by simp
  note f = built_fields[OF g]
  have "0 \<le> Min (set (map weight (ns_nodes ns)))"
    using a f(3) by (subst Min_ge_iff) auto
  then have "\<forall>b\<in>set (bins (prune_possible_mappings m1)). 0 \<le> capacity b"
    unfolding prune_possible_mappings_fields f(2) by auto
  moreover have "sum_list (map capacity (bins (prune_possible_mappings m1)))
                   < total_item_weight (prune_possible_mappings m1)"
    using a by simp
  ultimately have "get_fist_best_bins (prune_possible_mappings m1)
           = Inl (UnfeasibleBinPacking
                    (TotalWeightExceedsCapacities (total_item_weight m1)
                       (sum_list (map capacity (bins m1)))))"
    using get_fist_best_bins_short[of "prune_possible_mappings m1"] by simp
  with assms g show "map_infra_ns infra ns init_mapper
                = Some ([], Inl (UnfeasibleBinPacking
                                   (TotalWeightExceedsCapacities (total_item_weight m1)
                                      (sum_list (map capacity (bins m1))))))"
    by (simp add: map_infra_ns_def try_block_def)
next
  assume "get_base_bin_packing_problem infra ns init_mapper = Inr m1
          \<and> get_fist_best_bins (prune_possible_mappings m1) = Inr (best_bins, m2)
          \<and> map_all_items_to_bins best_bins m2 = Inl (UnfeasibleBinPacking u)"
  with assms show "map_infra_ns infra ns init_mapper = Some ([], Inl (UnfeasibleBinPacking u))"
    by (simp add: map_infra_ns_def try_block_def)
qed

theorem unfeasible_is_raised_witness:
  "infra_check_graph small_bin_infra \<and> ns_check_graph heavy_item_ns
   \<and> ns_nodes heavy_item_ns \<noteq> []
   \<and> list_all (\<lambda>n. capacity n < Min (set (map weight (ns_nodes heavy_item_ns))))
        (infra_nodes small_bin_infra)
   \<and> map_infra_ns small_bin_infra heavy_item_ns init_mapper
       = Some ([], Inl (UnfeasibleBinPacking NoBinHostsSmallestItem))"
proof -
  have c: "infra_check_graph small_bin_infra" "ns_check_graph heavy_item_ns"
    by (simp_all add: small_bin_infra_def heavy_item_ns_def)
  have h: "ns_nodes heavy_item_ns \<noteq> []
          \<and> (\<forall>n\<in>set (infra_nodes small_bin_infra).
                capacity n < Min (set (map weight (ns_nodes heavy_item_ns))))"
    by (simp add: small_bin_infra_def heavy_item_ns_def)
  from unfeasible_is_raised [OF c, THEN conjunct1, rule_format, OF h] c h
  show ?thesis unfolding list_all_iff by blast
qed

subsection \<open>The objective across the repair loop\<close>

lemma sum_item_costs_Some:
  "sum_item_costs m xs obj = Some v \<Longrightarrow>
   v = obj + sum_list (map (\<lambda>i. case mapped_to m (item_id i) of
                                  Some b \<Rightarrow> get_variable_cost_of_mapping b i
                                | None \<Rightarrow> 0) xs)"
proof (induction xs arbitrary: obj)
  case Nil
  then show ?case by simp
next
  case (Cons i xs)
  from Cons.prems obtain b where b: "mapped_to m (item_id i) = Some b"
    and r: "sum_item_costs m xs (obj + get_variable_cost_of_mapping b i) = Some v"
    by (auto split: option.splits)
  from Cons.IH[OF r] b show ?case by (simp add: add.assoc)
qed

lemma check_bins_loop_Some:
  "check_bins_loop m bs all_items obj = Inr (Some (v, rest)) \<Longrightarrow>
   v = obj + sum_list (map fixed_cost (filter (\<lambda>b. mapped_here m (bin_id b) \<noteq> []) bs))
   \<and> (\<forall>b\<in>set bs. \<not> is_overloaded m b)"
proof (induction bs arbitrary: all_items obj)
  case Nil
  then show ?case by simp
next
  case (Cons b bs)
  from Cons.prems have no: "\<not> is_overloaded m b" by (auto split: if_splits)
  show ?case
  proof (cases "mapped_here m (bin_id b) = []")
    case True
    with Cons.prems no have "check_bins_loop m bs all_items obj = Inr (Some (v, rest))"
      by simp
    from Cons.IH[OF this] True no show ?thesis by simp
  next
    case False
    with Cons.prems no obtain all' where
      "check_bins_loop m bs all' (obj + fixed_cost b) = Inr (Some (v, rest))"
      by (auto split: sum.splits)
    from Cons.IH[OF this] False no show ?thesis by (simp add: add.assoc)
  qed
qed

lemma check_bin_mapping_objective:
  assumes "check_bin_mapping m = Inr (True, m')"
  shows "objective_value_of_integer_solution m' = Some (integral_objective m)"
    and "\<forall>b\<in>set (bins m). \<not> is_overloaded m b"
proof -
  from assms obtain obj v rest where s: "sum_item_costs m (items m) 0 = Some obj"
    and c: "check_bins_loop m (bins m) (items m) obj = Inr (Some (v, rest))"
    and m': "m' = m\<lparr>objective_value_of_integer_solution := Some v\<rparr>"
    by (auto simp: check_bin_mapping_def split: option.splits sum.splits if_splits)
  from sum_item_costs_Some[OF s] check_bins_loop_Some[OF c] m'
  show "objective_value_of_integer_solution m' = Some (integral_objective m)"
    and "\<forall>b\<in>set (bins m). \<not> is_overloaded m b"
    by (simp_all add: integral_objective_def)
qed

text \<open>
  C2 (amended). If the validator accepts the state right after rounding, and so computes
  an integral objective for it, the repair loop over best bins of the problem makes no
  move and returns that state unchanged: the objective stays what the validator computed.
  For a rounded state that the validator rejects there is no such bound.
\<close>

theorem repair_keeps_valid_state:
  assumes "check_bin_mapping m = Inr (True, m1)" and "set best_bins \<subseteq> set (bins m)"
  shows "improve_loop best_bins m tr = Some (tr @ [Improved False], Inr m)
       \<and> objective_value_of_integer_solution m1 = Some (integral_objective m)"
proof -
  from check_bin_mapping_objective[OF assms(1)] assms(2)
  have "\<forall>b\<in>set best_bins. \<not> is_overloaded m b" by auto
  then have "overloading_items best_bins m = []"
    by (simp add: overloading_items_def)
  then have "improve_item_to_bin_mappings best_bins m = Inr (False, m)"
    by (simp add: improve_item_to_bin_mappings_def)
  then have "improve_loop best_bins m tr = Some (tr @ [Improved False], Inr m)"
    by (subst improve_loop.simps) simp
  with check_bin_mapping_objective(1)[OF assms(1)] show ?thesis by simp
qed


theorem repair_keeps_valid_state_witness:
  "map_sum id fst (check_bin_mapping (rounded zero_demand_infra zero_demand_ns)) = Inr True
   \<and> set (fst (relaxed zero_demand_infra zero_demand_ns))
        \<subseteq> set (bins (rounded zero_demand_infra zero_demand_ns))
   \<and> improve_loop (fst (relaxed zero_demand_infra zero_demand_ns))
        (rounded zero_demand_infra zero_demand_ns) []
       = Some ([Improved False], Inr (rounded zero_demand_infra zero_demand_ns))"
proof -
  have v: "map_sum id fst (check_bin_mapping (rounded zero_demand_infra zero_demand_ns)) = Inr True"
    by code_simp
  then obtain m1 where c: "check_bin_mapping (rounded zero_demand_infra zero_demand_ns) = Inr (True, m1)"
    by (cases "check_bin_mapping (rounded zero_demand_infra zero_demand_ns)") auto
  have sub: "set (fst (relaxed zero_demand_infra zero_demand_ns))
        \<subseteq> set (bins (rounded zero_demand_infra zero_demand_ns))"
    by code_simp
  from repair_keeps_valid_state [OF c sub, of "[]"] v sub show ?thesis
    by simp
qed

text \<open>Two items of weight 3 are rounded to the cheap bin of capacity 4, at a cost of 6, a
  state for which the validator computes no objective. The repair loop moves one of them
  to the dear bin and ends in a valid state of objective 18.\<close>

theorem repair_raises_objective_counterexample:
  "integral_objective (rounded two_bins_infra two_items_ns) = 6
   \<and> map_sum id (\<lambda>(v, m). (v, objective_value_of_integer_solution m))
        (check_bin_mapping (rounded two_bins_infra two_items_ns)) = Inr (False, None)
   \<and> map_option
        (\<lambda>(tr, r). case r of
           Inl e \<Rightarrow> None
         | Inr f \<Rightarrow> Some (integral_objective f,
                          map_sum id (\<lambda>(v, m). (v, objective_value_of_integer_solution m))
                            (check_bin_mapping f)))
        (improve_loop (fst (relaxed two_bins_infra two_items_ns))
           (rounded two_bins_infra two_items_ns) [])
       = Some (Some (18, Inr (True, Some 18)))"
  by code_simp

end
